theory Spec2Isabelle
  imports Main "HOL-Library.AList" "HOL-Library.Char_ord" "HOL-Library.List_Lexorder"
begin

section \<open>Data model of GUI\_spin\_coater.py\<close>

text \<open>
  A recipe is a Python dict read from and written to \<^verbatim>\<open>recipes.json\<close>. The code reads
  some keys with \<^verbatim>\<open>data.get(key, default)\<close> and others with \<^verbatim>\<open>data[key]\<close>, so every
  key may be absent: each field is an option, \<open>None\<close> meaning that the key is missing.
  The values have the types of the persistence file (strings, integers, a boolean).
\<close>

datatype py_error = KeyError string | TypeError

record recipe =
  name :: "string option"
  speed :: "int option"
  duration :: "int option"
  acceleration :: "int option"
  author :: "string option"
  shared :: "bool option"

text \<open>
  \<^verbatim>\<open>self.saved_recipes\<close> is a Python dict from identifier to recipe. Python dicts keep
  insertion order, assignment to an existing key keeps its position, assignment to a new
  key appends: an association list with \<open>AList.update\<close>, and \<open>AList.delete\<close> for
  \<^verbatim>\<open>del\<close>.
\<close>

type_synonym store = "(string \<times> recipe) list"

text \<open>\<^verbatim>\<open>data.get('author', 'Unknown')\<close> and \<^verbatim>\<open>data.get('shared', False)\<close>.\<close>

definition get_author :: "recipe \<Rightarrow> string" where
  "get_author d = (case author d of None \<Rightarrow> ''Unknown'' | Some a \<Rightarrow> a)"

definition get_shared :: "recipe \<Rightarrow> bool" where
  "get_shared d = (case shared d of None \<Rightarrow> False | Some b \<Rightarrow> b)"

text \<open>Truth value of a dict: \<^verbatim>\<open>not data\<close> holds for the dict without keys.\<close>

definition dict_empty :: "recipe \<Rightarrow> bool" where
  "dict_empty d \<longleftrightarrow> name d = None \<and> speed d = None \<and> duration d = None \<and>
     acceleration d = None \<and> author d = None \<and> shared d = None"

text \<open>
  An entry of the recipe list widget: its text, the identifier stored under
  \<^verbatim>\<open>Qt.ItemDataRole.UserRole\<close> (headers and the spacer have none) and whether it has
  item flags (headers and the spacer are created with \<^verbatim>\<open>NoItemFlags\<close>). Colours and
  fonts are left out.
\<close>

record list_item =
  text_of :: string
  role :: "string option"
  selectable :: bool

section \<open>refresh\_recipe\_list\<close>

text \<open>
  The classification loop (lines 383 to 395): shared recipes go to the shared pool,
  unshared recipes of the current user to the private pool, all others are skipped.
\<close>

fun classify :: "string \<Rightarrow> store \<Rightarrow> store \<Rightarrow> store \<Rightarrow> store \<times> store" where
  "classify cu [] my_private all_shared = (my_private, all_shared)"
| "classify cu ((r_id, d) # rest) my_private all_shared =
     (if get_shared d then classify cu rest my_private (all_shared @ [(r_id, d)])
      else if get_author d = cu then classify cu rest (my_private @ [(r_id, d)]) all_shared
      else classify cu rest my_private all_shared)"

text \<open>
  \<^verbatim>\<open>xs.sort(key=lambda x: x[1]['name'])\<close>: the keys are computed first, so a record
  without a name raises KeyError and leaves the list alone; otherwise a stable sort on the
  names.
\<close>

definition name_key :: "string \<times> recipe \<Rightarrow> string" where
  "name_key x = (case name (snd x) of None \<Rightarrow> [] | Some n \<Rightarrow> n)"

definition sort_by_name :: "store \<Rightarrow> py_error + store" where
  "sort_by_name xs =
     (if list_ex (\<lambda>x. name (snd x) = None) xs then Inl (KeyError ''name'')
      else Inr (sort_key name_key xs))"

definition header_private :: list_item where
  "header_private = \<lparr>text_of = ''--- My Private Recipes ---'', role = None, selectable = False\<rparr>"

definition header_shared :: list_item where
  "header_shared =
     \<lparr>text_of = ''--- Shared Recipes (All Users) ---'', role = None, selectable = False\<rparr>"

definition spacer :: list_item where
  "spacer = \<lparr>text_of = [], role = None, selectable = False\<rparr>"

text \<open>The two rendering loops add one item per recipe to the widget; a missing key raises
  after the items rendered so far have been added.\<close>

fun render_private :: "store \<Rightarrow> list_item list \<Rightarrow> py_error option \<times> list_item list" where
  "render_private [] items = (None, items)"
| "render_private ((r_id, d) # rest) items =
     (case name d of
        None \<Rightarrow> (Some (KeyError ''name''), items)
      | Some n \<Rightarrow>
          render_private rest (items @ [\<lparr>text_of = n, role = Some r_id, selectable = True\<rparr>]))"

fun render_shared :: "string \<Rightarrow> store \<Rightarrow> list_item list \<Rightarrow> py_error option \<times> list_item list" where
  "render_shared cu [] items = (None, items)"
| "render_shared cu ((r_id, d) # rest) items =
     (case name d of
        None \<Rightarrow> (Some (KeyError ''name''), items)
      | Some n \<Rightarrow>
          (case author d of
             None \<Rightarrow> (Some (KeyError ''author''), items)
           | Some a \<Rightarrow>
               render_shared cu rest
                 (items @ [\<lparr>text_of = (if a \<noteq> cu then n @ '' ('' @ a @ '')'' else n),
                            role = Some r_id, selectable = True\<rparr>])))"

text \<open>
  The whole function: the exception raised, if any, and the content of the list widget
  afterwards. The widget is cleared first; nothing is listed when no user is selected.
\<close>

definition refresh_recipe_list :: "string \<Rightarrow> store \<Rightarrow> py_error option \<times> list_item list" where
  "refresh_recipe_list current_user saved =
     (if current_user = [] then (None, [])
      else
        (case classify current_user saved [] [] of (my_private0, all_shared0) \<Rightarrow>
          (case sort_by_name my_private0 of
             Inl e \<Rightarrow> (Some e, [])
           | Inr my_private \<Rightarrow>
              (case sort_by_name all_shared0 of
                 Inl e \<Rightarrow> (Some e, [])
               | Inr all_shared \<Rightarrow>
                  (case (if my_private \<noteq> [] then render_private my_private [header_private]
                         else (None, [])) of
                     (Some e, items) \<Rightarrow> (Some e, items)
                   | (None, items1) \<Rightarrow>
                      (let items2 = (if my_private \<noteq> [] \<and> all_shared \<noteq> []
                                     then items1 @ [spacer] else items1)
                       in if all_shared \<noteq> []
                          then render_shared current_user all_shared (items2 @ [header_shared])
                          else (None, items2)))))))"

section \<open>The window's state\<close>

text \<open>
  The part of \<^verbatim>\<open>SpinCoaterGUI\<close> that the recipe operations write: the store, the user
  list, the items of the user combo box and of the recipe list, the form fields, the
  three files, the message boxes shown so far and the status label. What the operations
  read from Qt's selection state (the combo box's current text, the list's current item)
  and from the environment (a fresh UUID, the answer to a question dialog) is passed as an
  argument. A file is \<open>None\<close> when it does not exist. A row of \<^verbatim>\<open>history.csv\<close> is kept as
  (user, action); its timestamp is left out, as is the history table that
  \<^verbatim>\<open>load_history\<close> fills from the file. Failing file I/O is not modelled.
\<close>

record gui =
  saved_recipes :: store
  users :: "string list"
  user_combo :: "string list"
  recipe_list :: "list_item list"
  name_input :: string
  speed_input :: int
  duration_input :: int
  accel_input :: int
  shared_checkbox :: bool
  recipes_json :: "store option"
  users_json :: "string list option"
  history_csv :: "(string \<times> string) list option"
  warnings :: "(string \<times> string) list"
  status_label :: string

text \<open>
  How a slot ends: it runs to its end, it returns early at one of its guards, or an
  exception escapes. The guards are named after their condition in the source.
\<close>

datatype guard = NoUser | NoName | NoSelection | NoRecipeId | NoSuchRecipe | NotPermitted | NoSteps

datatype outcome = Completed | Returned guard | Raised py_error

definition log_action :: "string \<Rightarrow> string \<Rightarrow> gui \<Rightarrow> gui" where
  "log_action current_user action g =
     (let u = (if current_user = [] then ''Unknown'' else current_user);
          rows = (case history_csv g of None \<Rightarrow> [] | Some rs \<Rightarrow> rs)
      in g\<lparr>history_csv := Some (rows @ [(u, action)])\<rparr>)"

text \<open>The slot \<^verbatim>\<open>refresh_recipe_list\<close> on the window: the list widget gets the new items.\<close>

definition do_refresh :: "string \<Rightarrow> gui \<Rightarrow> py_error option \<times> gui" where
  "do_refresh current_user g =
     (case refresh_recipe_list current_user (saved_recipes g) of
        (e, items) \<Rightarrow> (e, g\<lparr>recipe_list := items\<rparr>))"

section \<open>save\_recipe\<close>

fun starts_with :: "string \<Rightarrow> string \<Rightarrow> bool" where
  "starts_with [] s = True"
| "starts_with (p # ps) [] = False"
| "starts_with (p # ps) (c # cs) = (p = c \<and> starts_with ps cs)"

text \<open>
  Lines 452 to 462: the identifier of the recipe to update is taken from the current item,
  unless there is none, its text starts with three dashes, or its identifier is empty.
\<close>

definition selected_recipe_id :: "list_item option \<Rightarrow> string option" where
  "selected_recipe_id current_item =
     (case current_item of
        None \<Rightarrow> None
      | Some it \<Rightarrow>
          if \<not> starts_with ''---'' (text_of it)
          then (case role it of
                  None \<Rightarrow> None
                | Some selected_id \<Rightarrow> if selected_id \<noteq> [] then Some selected_id else None)
          else None)"

definition denied_text :: "string \<Rightarrow> string option \<Rightarrow> string" where
  "denied_text nm au =
     ''You cannot modify '' @ [CHR 0x27] @ nm @ [CHR 0x27] @ '' because it belongs to '' @
     (case au of None \<Rightarrow> ''None'' | Some a \<Rightarrow> a) @ '' and is not shared.''"

text \<open>
  The permission check of lines 465 to 474: it applies when an identifier was selected and
  is in the store; \<^verbatim>\<open>existing_data.get('author')\<close> is Python's None for a record without
  author, which differs from every user name.
\<close>

definition save_denied :: "string \<Rightarrow> string option \<Rightarrow> store \<Rightarrow> recipe option" where
  "save_denied user recipe_id saved =
     (case recipe_id of
        None \<Rightarrow> None
      | Some rid \<Rightarrow>
          (case map_of saved rid of
             None \<Rightarrow> None
           | Some existing_data \<Rightarrow>
               if author existing_data \<noteq> Some user \<and> \<not> get_shared existing_data
               then Some existing_data else None))"

text \<open>
  \<open>new_uuid\<close> is the string that \<^verbatim>\<open>str(uuid.uuid4())\<close> returns when it is called. The
  author of the saved record is the user when the identifier is not in the store, and
  \<^verbatim>\<open>self.saved_recipes[recipe_id]['author']\<close> otherwise, which raises KeyError on a record
  without author, before anything is written.
\<close>

definition save_recipe :: "string \<Rightarrow> string \<Rightarrow> list_item option \<Rightarrow> gui \<Rightarrow> outcome \<times> gui" where
  "save_recipe new_uuid user current_item g =
     (let nm = name_input g in
      if user = [] then
        (Returned NoUser, g\<lparr>warnings := warnings g @ [(''Error'', ''Please select a User first!'')]\<rparr>)
      else if nm = [] then (Returned NoName, g)
      else
        (let selected = selected_recipe_id current_item in
         case save_denied user selected (saved_recipes g) of
           Some existing_data \<Rightarrow>
             (Returned NotPermitted,
              g\<lparr>warnings := warnings g @
                   [(''Permission Denied'', denied_text nm (author existing_data))]\<rparr>)
         | None \<Rightarrow>
             (let recipe_id = (case selected of None \<Rightarrow> new_uuid | Some rid \<Rightarrow> rid) in
              case (case map_of (saved_recipes g) recipe_id of
                      None \<Rightarrow> Inr user
                    | Some existing \<Rightarrow>
                        (case author existing of
                           None \<Rightarrow> Inl (KeyError ''author'')
                         | Some a \<Rightarrow> Inr a)) of
                Inl e \<Rightarrow> (Raised e, g)
              | Inr au \<Rightarrow>
                  (let saved = AList.update recipe_id
                                 \<lparr>name = Some nm, speed = Some (speed_input g),
                                  duration = Some (duration_input g),
                                  acceleration = Some (accel_input g),
                                  author = Some au, shared = Some (shared_checkbox g)\<rparr>
                                 (saved_recipes g);
                       g1 = g\<lparr>saved_recipes := saved, recipes_json := Some saved\<rparr>;
                       g2 = log_action user (''Saved: '' @ nm) g1
                   in case do_refresh user g2 of
                        (Some e, g3) \<Rightarrow> (Raised e, g3)
                      | (None, g3) \<Rightarrow> (Completed, g3\<lparr>status_label := ''Saved: '' @ nm\<rparr>)))))"

section \<open>delete\_recipe\<close>

definition delete_recipe :: "string \<Rightarrow> list_item option \<Rightarrow> gui \<Rightarrow> outcome \<times> gui" where
  "delete_recipe current_user item g =
     (case item of
        None \<Rightarrow> (Returned NoSelection, g)
      | Some it \<Rightarrow>
         (case role it of
            None \<Rightarrow> (Returned NoRecipeId, g)
          | Some recipe_id \<Rightarrow>
             if recipe_id = [] then (Returned NoRecipeId, g)
             else
              (case map_of (saved_recipes g) recipe_id of
                 None \<Rightarrow> (Returned NoSuchRecipe, g)
               | Some d \<Rightarrow>
                  if dict_empty d then (Returned NoSuchRecipe, g)
                  else if author d \<noteq> Some current_user \<and> \<not> get_shared d then
                    (Returned NotPermitted,
                     g\<lparr>warnings := warnings g @
                          [(''Permission Denied'',
                            ''You cannot delete this recipe. It belongs to another user.'')]\<rparr>)
                  else
                   (case name d of
                      None \<Rightarrow> (Raised (KeyError ''name''), g)
                    | Some nm \<Rightarrow>
                       (let saved = AList.delete recipe_id (saved_recipes g);
                            g1 = g\<lparr>saved_recipes := saved, recipes_json := Some saved\<rparr>;
                            g2 = log_action current_user (''Deleted: '' @ nm) g1
                        in case do_refresh current_user g2 of
                             (Some e, g3) \<Rightarrow> (Raised e, g3)
                           | (None, g3) \<Rightarrow> (Completed, g3\<lparr>name_input := []\<rparr>))))))"

section \<open>Users\<close>

text \<open>
  \<open>ok\<close> and \<open>nm\<close> are what the input dialog returns, \<open>yes\<close> whether the question dialog
  is answered with Yes. \<^verbatim>\<open>list.remove\<close> and \<^verbatim>\<open>removeItem(findText(u))\<close> take out the first
  occurrence. Removing the entry of the combo box changes its current text; \<open>next_text\<close> is
  the text that the combo box shows after the removal (the empty string when nothing is
  left). The signal \<^verbatim>\<open>currentTextChanged\<close> is connected to \<^verbatim>\<open>refresh_recipe_list\<close>, so when
  the text differs the list is refreshed for it inside \<^verbatim>\<open>removeItem\<close>, after the user
  has left \<^verbatim>\<open>self.users\<close> and before \<^verbatim>\<open>users.json\<close> is written; an exception of the refresh
  escapes before the file is written.
\<close>

definition add_new_user :: "bool \<Rightarrow> string \<Rightarrow> gui \<Rightarrow> gui" where
  "add_new_user ok nm g =
     (if ok \<and> nm \<noteq> [] \<and> nm \<notin> set (users g)
      then (let us = users g @ [nm]
            in g\<lparr>users := us, user_combo := user_combo g @ [nm], users_json := Some us\<rparr>)
      else g)"

definition delete_user :: "bool \<Rightarrow> string \<Rightarrow> string \<Rightarrow> gui \<Rightarrow> py_error option \<times> gui" where
  "delete_user yes next_text u g =
     (if u \<noteq> [] \<and> u \<in> set (users g) then
        (if yes then
           (let g1 = g\<lparr>users := remove1 u (users g)\<rparr>
            in case (if u \<in> set (user_combo g1) then
                       (let g2 = g1\<lparr>user_combo := remove1 u (user_combo g1)\<rparr>
                        in if next_text \<noteq> u then do_refresh next_text g2 else (None, g2))
                     else (None, g1)) of
                 (Some e, g3) \<Rightarrow> (Some e, g3)
               | (None, g3) \<Rightarrow> (None, g3\<lparr>users_json := Some (users g3)\<rparr>))
         else (None, g))
      else (None, g))"

section \<open>load\_data\<close>

text \<open>
  The migration loop of lines 359 to 365 over the items of the loaded JSON object.
  \<open>uuid4 k\<close> is the string returned by the \<open>k\<close>-th call of \<^verbatim>\<open>str(uuid.uuid4())\<close>; \<open>k\<close>
  counts the calls made so far.
\<close>

fun migrate :: "(nat \<Rightarrow> string) \<Rightarrow> nat \<Rightarrow> store \<Rightarrow> store \<Rightarrow> store" where
  "migrate uuid4 k [] saved = saved"
| "migrate uuid4 k ((key, val) # rest) saved =
     (if name val = None
      then migrate uuid4 (Suc k) rest (AList.update (uuid4 k) (val\<lparr>name := Some key\<rparr>) saved)
      else migrate uuid4 k rest (AList.update key val saved))"

definition load_data :: "(nat \<Rightarrow> string) \<Rightarrow> string \<Rightarrow> gui \<Rightarrow> py_error option \<times> gui" where
  "load_data uuid4 current_user g =
     (let g1 = (case users_json g of
                  None \<Rightarrow> g
                | Some us \<Rightarrow> g\<lparr>users := us, user_combo := user_combo g @ us\<rparr>);
          g2 = (case recipes_json g1 of
                  None \<Rightarrow> g1
                | Some raw_data \<Rightarrow> g1\<lparr>saved_recipes := migrate uuid4 0 raw_data []\<rparr>)
      in do_refresh current_user g2)"

text \<open>
  The migration as the specification words it, for comparison with the loop: every legacy
  record gets the next generated identifier and its key as name, every other record stays
  under its key.
\<close>

fun migration_spec :: "(nat \<Rightarrow> string) \<Rightarrow> nat \<Rightarrow> store \<Rightarrow> store" where
  "migration_spec uuid4 k [] = []"
| "migration_spec uuid4 k ((key, val) # rest) =
     (if name val = None
      then (uuid4 k, val\<lparr>name := Some key\<rparr>) # migration_spec uuid4 (Suc k) rest
      else (key, val) # migration_spec uuid4 k rest)"

section \<open>The execution queue and start\_process\<close>

text \<open>
  A step handed to the worker is a dict: the wait step built by \<^verbatim>\<open>add_wait_step\<close>, or a
  copy of a recipe with the key \<^verbatim>\<open>'type'\<close> added.
\<close>

record step = recipe +
  stype :: "string option"

text \<open>
  The data of a queue item under \<^verbatim>\<open>UserRole\<close>: the dict of a wait step; for an item
  dropped from the recipe list, the identifier string when Qt carries the role over and
  nothing when it does not. The text of a dropped item is the text of the list item.
\<close>

datatype item_data = NoData | DictData step | StrData string

record queue_item =
  q_text :: string
  q_data :: item_data

text \<open>Python's \<^verbatim>\<open>str\<close> of an integer, used by the f-strings.\<close>

fun digits :: "nat \<Rightarrow> string" where
  "digits n = (if n < 10 then [''0123456789'' ! n]
               else digits (n div 10) @ [''0123456789'' ! (n mod 10)])"

declare digits.simps [simp del]

definition str_int :: "int \<Rightarrow> string" where
  "str_int i = (if i < 0 then CHR ''-'' # digits (nat (- i)) else digits (nat i))"

text \<open>The dict that \<^verbatim>\<open>add_wait_step\<close> stores in the queue item, and the item.\<close>

definition wait_step :: "int \<Rightarrow> step" where
  "wait_step dur = \<lparr>name = Some ''Wait'', speed = None, duration = Some dur,
                     acceleration = None, author = None, shared = None,
                     stype = Some ''wait''\<rparr>"

definition add_wait_step :: "int \<Rightarrow> queue_item list \<Rightarrow> queue_item list" where
  "add_wait_step dur queue =
     queue @ [\<lparr>q_text = ''--- WAIT '' @ str_int dur @ ''s ---'', q_data = DictData (wait_step dur)\<rparr>]"

text \<open>\<^verbatim>\<open>item_text.split(" (")[0]\<close>: the text before the first blank followed by a parenthesis.\<close>

fun clean_name :: "string \<Rightarrow> string" where
  "clean_name [] = []"
| "clean_name [c] = [c]"
| "clean_name (c # d # cs) =
     (if c = CHR '' '' \<and> d = CHR ''('' then [] else c # clean_name (d # cs))"

text \<open>\<^verbatim>\<open>'type' in data\<close> on a string is the substring test.\<close>

fun is_infix :: "string \<Rightarrow> string \<Rightarrow> bool" where
  "is_infix p [] = (p = [])"
| "is_infix p (c # cs) = (starts_with p (c # cs) \<or> is_infix p cs)"

text \<open>
  Lines 570 to 574: the first recipe of the store, in its order, whose name is the cleaned
  text. \<^verbatim>\<open>rdata['name']\<close> raises on a record without name that is reached by the search.
\<close>

fun find_recipe :: "string \<Rightarrow> store \<Rightarrow> py_error + recipe option" where
  "find_recipe nm [] = Inr None"
| "find_recipe nm ((rid, rdata) # rest) =
     (case name rdata of
        None \<Rightarrow> Inl (KeyError ''name'')
      | Some n \<Rightarrow> if n = nm then Inr (Some rdata) else find_recipe nm rest)"

text \<open>\<^verbatim>\<open>d = found_data.copy(); d['type'] = 'spin'\<close>.\<close>

definition spin_step :: "recipe \<Rightarrow> step" where
  "spin_step found_data =
     \<lparr>name = name found_data, speed = speed found_data, duration = duration found_data,
      acceleration = acceleration found_data, author = author found_data,
      shared = shared found_data, stype = Some ''spin''\<rparr>"

text \<open>
  The test of line 558, \<^verbatim>\<open>data and 'type' in data and data['type'] == 'wait'\<close>: on a dict
  it holds when the key is there with the value \<^verbatim>\<open>'wait'\<close>; on a non-empty string that
  contains \<^verbatim>\<open>type\<close> the subscript raises TypeError; otherwise it is false.
\<close>

definition is_wait_item :: "queue_item \<Rightarrow> py_error + bool" where
  "is_wait_item item =
     (case q_data item of
        NoData \<Rightarrow> Inr False
      | DictData d \<Rightarrow> Inr (stype d = Some ''wait'')
      | StrData s \<Rightarrow> if s \<noteq> [] \<and> is_infix ''type'' s then Inl TypeError else Inr False)"

text \<open>The loop over the queue, lines 553 to 580, with its two accumulators.\<close>

fun build_steps ::
  "store \<Rightarrow> queue_item list \<Rightarrow> step list \<Rightarrow> string list \<Rightarrow> py_error + step list \<times> string list"
where
  "build_steps saved [] steps names = Inr (steps, names)"
| "build_steps saved (item # rest) steps names =
     (case is_wait_item item of
        Inl e \<Rightarrow> Inl e
      | Inr True \<Rightarrow>
          (case q_data item of
             DictData d \<Rightarrow> build_steps saved rest (steps @ [d]) (names @ [''Wait''])
           | _ \<Rightarrow> build_steps saved rest steps names)
      | Inr False \<Rightarrow>
          (case find_recipe (clean_name (q_text item)) saved of
             Inl e \<Rightarrow> Inl e
           | Inr None \<Rightarrow> build_steps saved rest steps names
           | Inr (Some found_data) \<Rightarrow>
               build_steps saved rest (steps @ [spin_step found_data])
                 (names @ [clean_name (q_text item)])))"



section \<open>MotorWorker.run\<close>

text \<open>
  What the worker emits on \<^verbatim>\<open>progress_update\<close>. A notification is kept with its arguments;
  \<open>render\<close> is the string that the f-string of the source produces from them.
\<close>

datatype notification =
    Initializing
  | NoSerial
  | Connected string
  | ConnectionError string
  | Ramping int int string int
  | Spinning int int string int int
  | Waiting int int string int
  | ProcessComplete

definition prefix_text :: "int \<Rightarrow> int \<Rightarrow> string \<Rightarrow> string" where
  "prefix_text current_loop total_loops nm =
     ''Loop '' @ str_int current_loop @ ''/'' @ str_int total_loops @ '' | '' @ nm"

fun render :: "notification \<Rightarrow> string" where
  "render Initializing = ''Initializing...''"
| "render NoSerial = ''Error: pyserial not installed!''"
| "render (Connected port) = ''Connected to '' @ port"
| "render (ConnectionError msg) = ''Connection Error: '' @ msg"
| "render (Ramping cur tot nm sp) =
     prefix_text cur tot nm @ '': Ramping to '' @ str_int sp @ '' RPM...''"
| "render (Spinning cur tot nm sp t) =
     prefix_text cur tot nm @ '': Spinning '' @ str_int sp @ '' RPM ('' @ str_int t @ ''s left)''"
| "render (Waiting cur tot nm t) =
     prefix_text cur tot nm @ '': WAITING '' @ str_int t @ ''s...''"
| "render ProcessComplete = ''Process Complete.''"

fun is_step_progress :: "notification \<Rightarrow> bool" where
  "is_step_progress (Ramping cur tot nm sp) = True"
| "is_step_progress (Spinning cur tot nm sp t) = True"
| "is_step_progress (Waiting cur tot nm t) = True"
| "is_step_progress n = False"

text \<open>
  The trace of a run, in order: every read of \<^verbatim>\<open>self.is_running\<close> with the value read,
  every notification emitted, every line written to the serial port, the sleeps in
  seconds, the closing of the port and the \<^verbatim>\<open>finished\<close> signal.
\<close>

datatype event =
    ReadFlag bool
  | Emit notification
  | Write string
  | Sleep nat
  | Close
  | Finished

text \<open>
  The environment of a run: whether \<^verbatim>\<open>import serial\<close> succeeded, the message of the
  exception that \<^verbatim>\<open>serial.Serial(...)\<close> raises (\<open>None\<close> when the port opens), and the
  number of reads of \<^verbatim>\<open>is_running\<close> that see True before \<^verbatim>\<open>stop()\<close> has set the flag
  (\<open>None\<close> when the run is never stopped). The flag is only ever set to False, so the
  reads are True up to some read and False from then on. Writes to an open port succeed.
\<close>

record env =
  serial_available :: bool
  serial_open :: "string option"
  stop_after :: "nat option"

record wstate =
  trace :: "event list"
  reads :: nat
  ser :: bool

definition flag_at :: "env \<Rightarrow> nat \<Rightarrow> bool" where
  "flag_at e k = (case stop_after e of None \<Rightarrow> True | Some n \<Rightarrow> k < n)"

definition log_events :: "event list \<Rightarrow> wstate \<Rightarrow> wstate" where
  "log_events es s = s\<lparr>trace := trace s @ es\<rparr>"

definition read_running :: "env \<Rightarrow> wstate \<Rightarrow> bool \<times> wstate" where
  "read_running e s =
     (let b = flag_at e (reads s)
      in (b, s\<lparr>trace := trace s @ [ReadFlag b], reads := Suc (reads s)\<rparr>))"

text \<open>\<^verbatim>\<open>range(duration, 0, -1)\<close>: duration, ..., 1, empty when the duration is not positive.\<close>

fun countdown :: "nat \<Rightarrow> int list" where
  "countdown 0 = []"
| "countdown (Suc n) = int (Suc n) # countdown n"

text \<open>The two tick loops (lines 98 to 101 and 115 to 118); \<open>msg t\<close> is the notification
  of the tick with \<open>t\<close> seconds left.\<close>

fun tick_loop :: "env \<Rightarrow> (int \<Rightarrow> notification) \<Rightarrow> int list \<Rightarrow> wstate \<Rightarrow> wstate" where
  "tick_loop e msg [] s = s"
| "tick_loop e msg (t # ts) s =
     (case read_running e s of
        (b, s1) \<Rightarrow>
          if \<not> b then s1
          else tick_loop e msg ts (log_events [Emit (msg t), Sleep 1] s1))"

definition speed_cmd :: "int \<Rightarrow> string" where
  "speed_cmd sp = ''SPEED:'' @ str_int sp @ [CHR 0x0A]"

text \<open>
  The body of the loop over the steps (lines 87 to 118), after the check at its top. A
  missing \<^verbatim>\<open>'duration'\<close> or \<^verbatim>\<open>'speed'\<close> raises KeyError; the state reached is kept with it.
\<close>

definition run_step ::
  "env \<Rightarrow> bool \<Rightarrow> int \<Rightarrow> int \<Rightarrow> step \<Rightarrow> wstate \<Rightarrow> (py_error \<times> wstate) + wstate"
where
  "run_step e simulation_mode current_loop total_loops st s =
     (let step_type = (case stype st of None \<Rightarrow> ''spin'' | Some t \<Rightarrow> t);
          nm = (case name st of None \<Rightarrow> ''Step'' | Some n \<Rightarrow> n)
      in case duration st of
           None \<Rightarrow> Inl (KeyError ''duration'', s)
         | Some dur \<Rightarrow>
             if step_type = ''wait'' then
               (let s1 = (if \<not> simulation_mode \<and> ser s then log_events [Write (speed_cmd 0)] s
                          else s)
                in Inr (tick_loop e (Waiting current_loop total_loops nm) (countdown (nat dur)) s1))
             else
               (case speed st of
                  None \<Rightarrow> Inl (KeyError ''speed'', s)
                | Some sp \<Rightarrow>
                    (let s1 = (if \<not> simulation_mode \<and> ser s
                               then log_events [Write (speed_cmd sp)] s else s);
                         s2 = log_events [Emit (Ramping current_loop total_loops nm sp), Sleep 1] s1
                     in Inr (tick_loop e (Spinning current_loop total_loops nm sp)
                               (countdown (nat dur)) s2))))"

text \<open>The loop over the steps; \<^verbatim>\<open>break\<close> leaves it when the flag is read as False.\<close>

fun run_steps ::
  "env \<Rightarrow> bool \<Rightarrow> int \<Rightarrow> int \<Rightarrow> step list \<Rightarrow> wstate \<Rightarrow> (py_error \<times> wstate) + wstate"
where
  "run_steps e sim cur tot [] s = Inr s"
| "run_steps e sim cur tot (st # rest) s =
     (case read_running e s of
        (b, s1) \<Rightarrow>
          if \<not> b then Inr s1
          else (case run_step e sim cur tot st s1 of
                  Inl err \<Rightarrow> Inl err
                | Inr s2 \<Rightarrow> run_steps e sim cur tot rest s2))"

text \<open>The loop over \<^verbatim>\<open>range(1, total_loops + 1)\<close>, given as the list of its values.\<close>

fun run_loops ::
  "env \<Rightarrow> bool \<Rightarrow> int \<Rightarrow> step list \<Rightarrow> int list \<Rightarrow> wstate \<Rightarrow> (py_error \<times> wstate) + wstate"
where
  "run_loops e sim tot steps [] s = Inr s"
| "run_loops e sim tot steps (cur # rest) s =
     (case read_running e s of
        (b, s1) \<Rightarrow>
          if \<not> b then Inr s1
          else (case run_steps e sim cur tot steps s1 of
                  Inl err \<Rightarrow> Inl err
                | Inr s2 \<Rightarrow> run_loops e sim tot steps rest s2))"

definition shutdown :: "bool \<Rightarrow> wstate \<Rightarrow> wstate" where
  "shutdown simulation_mode s =
     (let s1 = (if \<not> simulation_mode \<and> ser s
                then (log_events [Write (speed_cmd 0), Close] s) else s)
      in log_events [Emit ProcessComplete, Finished] s1)"

definition run :: "env \<Rightarrow> step list \<Rightarrow> int \<Rightarrow> bool \<Rightarrow> (py_error \<times> wstate) + wstate" where
  "run e recipe_steps loop_count simulation_mode =
     (let s0 = \<lparr>trace = [Emit Initializing], reads = 0, ser = False\<rparr>
      in if \<not> simulation_mode \<and> \<not> serial_available e then
           Inr (log_events [Emit NoSerial, Finished] s0)
         else
           (case (if simulation_mode then None else serial_open e) of
              Some msg \<Rightarrow> Inr (log_events [Emit (ConnectionError msg), Finished] s0)
            | None \<Rightarrow>
                (let s1 = (if simulation_mode then s0
                           else log_events [Sleep 2, Emit (Connected ''COM3'')] (s0\<lparr>ser := True\<rparr>))
                 in case run_loops e simulation_mode loop_count recipe_steps
                           (map int [1..<Suc (nat loop_count)]) s1 of
                      Inl err \<Rightarrow> Inl err
                    | Inr s2 \<Rightarrow> Inr (shutdown simulation_mode s2))))"

text \<open>The notifications and the device commands of a trace, in order.\<close>

fun emitted :: "event list \<Rightarrow> notification list" where
  "emitted [] = []"
| "emitted (Emit n # es) = n # emitted es"
| "emitted (ev # es) = emitted es"

fun written :: "event list \<Rightarrow> string list" where
  "written [] = []"
| "written (Write w # es) = w # written es"
| "written (ev # es) = written es"

text \<open>The trace of a run, whether it ended or an exception escaped.\<close>

definition final_trace :: "(py_error \<times> wstate) + wstate \<Rightarrow> event list" where
  "final_trace r = (case r of Inl (err, s) \<Rightarrow> trace s | Inr s \<Rightarrow> trace s)"

text \<open>
  A scan of a trace for the placement of the cancellation checks: \<open>armed\<close> tells that the
  last thing the worker did, apart from writing to the device, was to read the flag as
  True. Every step notification must find the scan armed, and disarms it, as every sleep
  does.
\<close>

fun check_guard :: "bool \<Rightarrow> event list \<Rightarrow> bool" where
  "check_guard armed [] = True"
| "check_guard armed (ReadFlag b # es) = check_guard b es"
| "check_guard armed (Write w # es) = check_guard armed es"
| "check_guard armed (Emit n # es) = ((is_step_progress n \<longrightarrow> armed) \<and> check_guard False es)"
| "check_guard armed (ev # es) = check_guard False es"

fun armed_after :: "bool \<Rightarrow> event list \<Rightarrow> bool" where
  "armed_after armed [] = armed"
| "armed_after armed (ReadFlag b # es) = armed_after b es"
| "armed_after armed (Write w # es) = armed_after armed es"
| "armed_after armed (ev # es) = armed_after False es"

text \<open>
  Two conditions on the state of a run: no read of the flag has returned False so far; or
  the flag is down and the trace ends with a block of reads that returned False, the first
  of them being the first such read of the run.
\<close>

definition clean :: "wstate \<Rightarrow> bool" where
  "clean s \<longleftrightarrow> ReadFlag False \<notin> set (trace s)"

definition stopped :: "env \<Rightarrow> wstate \<Rightarrow> bool" where
  "stopped e s \<longleftrightarrow> \<not> flag_at e (reads s) \<and>
     (\<exists>pre k. trace s = pre @ replicate (Suc k) (ReadFlag False) \<and> ReadFlag False \<notin> set pre)"

definition guarded :: "wstate \<Rightarrow> bool" where
  "guarded s \<longleftrightarrow> check_guard False (trace s)"

definition armed :: "wstate \<Rightarrow> bool" where
  "armed s \<longleftrightarrow> armed_after False (trace s)"

text \<open>
  The schedule of a live run with an open port that is never stopped, written down from
  the specification: after the connection, for each loop index from 1 to the loop count a
  check of the flag; in it, for each step in order, a check of the flag, the speed command
  of the step (speed 0 for a wait step), for a spin step the ramp notification and the
  settle second, and then for each remaining second, counting down, a check of the flag,
  the tick notification and one second of sleep; at the end the shutdown. A step without
  duration, or a spin step without speed (not \<open>wf_step\<close>), ends the schedule after the check
  at its top in the first loop, where the KeyError is raised.
\<close>

definition wf_step :: "step \<Rightarrow> bool" where
  "wf_step st \<longleftrightarrow> duration st \<noteq> None \<and> (stype st \<noteq> Some ''wait'' \<longrightarrow> speed st \<noteq> None)"

definition tick_events :: "(int \<Rightarrow> notification) \<Rightarrow> int \<Rightarrow> event list" where
  "tick_events msg t = [ReadFlag True, Emit (msg t), Sleep 1]"

definition step_schedule :: "int \<Rightarrow> int \<Rightarrow> step \<Rightarrow> event list" where
  "step_schedule cur tot st =
     (let nm = (case name st of None \<Rightarrow> ''Step'' | Some n \<Rightarrow> n);
          seconds = countdown (nat (case duration st of None \<Rightarrow> 0 | Some d \<Rightarrow> d));
          sp = (case speed st of None \<Rightarrow> 0 | Some v \<Rightarrow> v)
      in if stype st = Some ''wait''
         then Write (speed_cmd 0) # concat (map (tick_events (Waiting cur tot nm)) seconds)
         else Write (speed_cmd sp) # Emit (Ramping cur tot nm sp) # Sleep 1 #
              concat (map (tick_events (Spinning cur tot nm sp)) seconds))"

definition steps_schedule :: "int \<Rightarrow> int \<Rightarrow> step list \<Rightarrow> event list" where
  "steps_schedule cur tot steps =
     concat (map (\<lambda>st. ReadFlag True # step_schedule cur tot st) (takeWhile wf_step steps)) @
     (if list_all wf_step steps then [] else [ReadFlag True])"

definition loop_schedule :: "int \<Rightarrow> step list \<Rightarrow> int \<Rightarrow> event list" where
  "loop_schedule tot steps cur = ReadFlag True # steps_schedule cur tot steps"

definition shutdown_events :: "event list" where
  "shutdown_events = [Write (''SPEED:0'' @ [CHR 0x0A]), Close, Emit ProcessComplete, Finished]"

definition live_schedule :: "step list \<Rightarrow> int \<Rightarrow> event list" where
  "live_schedule steps loop_count =
     [Emit Initializing, Sleep 2, Emit (Connected ''COM3'')] @
     (if list_all wf_step steps \<or> loop_count \<le> 0
      then concat (map (loop_schedule loop_count steps) (map int [1..<Suc (nat loop_count)])) @
           shutdown_events
      else loop_schedule loop_count steps 1)"

text \<open>The number of reads of the flag in a trace, and the part of a trace before its
  read number \<open>m\<close> (counted from 0); the whole trace when it has no such read.\<close>

fun count_reads :: "event list \<Rightarrow> nat" where
  "count_reads [] = 0"
| "count_reads (ReadFlag b # es) = Suc (count_reads es)"
| "count_reads (ev # es) = count_reads es"

fun before_read :: "nat \<Rightarrow> event list \<Rightarrow> event list" where
  "before_read m [] = []"
| "before_read m (ReadFlag b # es) = (case m of 0 \<Rightarrow> [] | Suc k \<Rightarrow> ReadFlag b # before_read k es)"
| "before_read m (ev # es) = ev # before_read m es"

text \<open>
  For the comparison of a run that is stopped at read \<open>m\<close> with the run that is not:
  \<open>advance d s\<close> is the state after the events \<open>d\<close>; \<open>follows m K s0 s\<close> relates the state
  \<open>s0\<close> of the run that is not stopped to the state \<open>s\<close> of the stopped one, which is the
  same up to read \<open>m\<close> and from then on has only reads that returned False, at most \<open>K\<close>
  after the first.
\<close>

definition advance :: "event list \<Rightarrow> wstate \<Rightarrow> wstate" where
  "advance d s = s\<lparr>trace := trace s @ d, reads := reads s + count_reads d\<rparr>"

definition counted :: "wstate \<Rightarrow> bool" where
  "counted s \<longleftrightarrow> reads s = count_reads (trace s)"

definition follows :: "nat \<Rightarrow> nat \<Rightarrow> wstate \<Rightarrow> wstate \<Rightarrow> bool" where
  "follows m K s0 s \<longleftrightarrow>
     (reads s0 \<le> m \<and> s = s0) \<or>
     (m < reads s0 \<and> m < reads s \<and> ser s = ser s0 \<and>
      (\<exists>k\<le>K. trace s = before_read m (trace s0) @ replicate (Suc k) (ReadFlag False)))"

section \<open>Example data\<close>

definition demo_store :: store where
  "demo_store =
     [(''id1'', \<lparr>name = Some ''Beta'', speed = Some 1000, duration = Some 5,
                acceleration = Some 100, author = Some ''ann'', shared = Some False\<rparr>),
      (''id2'', \<lparr>name = Some ''Alpha'', speed = Some 2000, duration = Some 3,
                acceleration = Some 200, author = Some ''bob'', shared = Some False\<rparr>),
      (''id3'', \<lparr>name = Some ''Gamma'', speed = Some 3000, duration = Some 4,
                acceleration = Some 300, author = Some ''bob'', shared = Some True\<rparr>)]"


definition demo_gui :: gui where
  "demo_gui =
     \<lparr>saved_recipes = demo_store, users = [''ann'', ''bob''], user_combo = [''ann'', ''bob''],
      recipe_list = [], name_input = ''Delta'', speed_input = 1500, duration_input = 7,
      accel_input = 50, shared_checkbox = False, recipes_json = Some demo_store,
      users_json = Some [''ann'', ''bob''], history_csv = None, warnings = [],
      status_label = ''Ready''\<rparr>"

definition demo_raw :: store where
  "demo_raw =
     [(''MyRecipe'', \<lparr>name = None, speed = Some 1200, duration = Some 30,
                     acceleration = Some 10, author = Some ''ann'', shared = Some False\<rparr>),
      (''id7'', \<lparr>name = Some ''Kept'', speed = Some 800, duration = Some 9,
                acceleration = Some 20, author = Some ''bob'', shared = Some True\<rparr>)]"

definition demo_uuid4 :: "nat \<Rightarrow> string" where
  "demo_uuid4 k = ''uuid-'' @ replicate k (CHR ''x'')"

definition demo_steps :: "string \<Rightarrow> step list" where
  "demo_steps nm =
     [spin_step \<lparr>name = Some nm, speed = Some 2000, duration = Some 3,
                 acceleration = Some 100, author = Some ''ann'', shared = Some False\<rparr>,
      wait_step 2]"

definition demo_env :: env where
  "demo_env = \<lparr>serial_available = True, serial_open = None, stop_after = None\<rparr>"

definition demo_stop :: env where
  "demo_stop = \<lparr>serial_available = True, serial_open = None, stop_after = Some 5\<rparr>"



definition alpha_queued :: queue_item where
  "alpha_queued = \<lparr>q_text = ''Alpha'', q_data = NoData\<rparr>"

section \<open>Properties of the listing\<close>

lemma classify_private:
  "x \<in> set (fst (classify cu st p s)) \<longleftrightarrow>
     x \<in> set p \<or> (x \<in> set st \<and> \<not> get_shared (snd x) \<and> get_author (snd x) = cu)"
proof (induction st arbitrary: p s)
  case Nil
  show ?case by simp
next
  case (Cons y st)
  obtain r_id d where y: "y = (r_id, d)" by (cases y)
  show ?case unfolding y by (cases "get_shared d"; cases "get_author d = cu") (auto simp: Cons.IH)
qed

lemma classify_shared:
  "x \<in> set (snd (classify cu st p s)) \<longleftrightarrow> x \<in> set s \<or> (x \<in> set st \<and> get_shared (snd x))"
proof (induction st arbitrary: p s)
  case Nil
  show ?case by simp
next
  case (Cons y st)
  obtain r_id d where y: "y = (r_id, d)" by (cases y)
  show ?case unfolding y by (cases "get_shared d"; cases "get_author d = cu") (auto simp: Cons.IH)
qed

lemma sort_by_name_set: "sort_by_name xs = Inr ys \<Longrightarrow> set ys = set xs"
  by (auto simp: sort_by_name_def split: if_splits)

lemma render_private_roles:
  "render_private xs items = (None, out) \<Longrightarrow>
     role ` set out = role ` set items \<union> Some ` fst ` set xs"
proof (induction xs arbitrary: items)
  case Nil
  then show ?case by simp
next
  case (Cons x xs)
  obtain r_id d where x: "x = (r_id, d)" by (cases x)
  from Cons.prems x obtain n where n: "name d = Some n"
    by (cases "name d") auto
  from Cons.prems x n have
    "render_private xs (items @ [\<lparr>text_of = n, role = Some r_id, selectable = True\<rparr>]) = (None, out)"
    by simp
  from Cons.IH [OF this] x show ?case by auto
qed

lemma render_shared_roles:
  "render_shared cu xs items = (None, out) \<Longrightarrow>
     role ` set out = role ` set items \<union> Some ` fst ` set xs"
proof (induction xs arbitrary: items)
  case Nil
  then show ?case by simp
next
  case (Cons x xs)
  obtain r_id d where x: "x = (r_id, d)" by (cases x)
  from Cons.prems x obtain n where n: "name d = Some n"
    by (cases "name d") auto
  from Cons.prems x n obtain a where a: "author d = Some a"
    by (cases "author d") auto
  from Cons.prems x n a have
    "render_shared cu xs
       (items @ [\<lparr>text_of = (if a \<noteq> cu then n @ '' ('' @ a @ '')'' else n),
                  role = Some r_id, selectable = True\<rparr>]) = (None, out)"
    by simp
  from Cons.IH [OF this] x show ?case by auto
qed


lemma refresh_roles:
  assumes cu: "cu \<noteq> []" and ok: "refresh_recipe_list cu st = (None, items)"
  shows "Some rid \<in> role ` set items \<longleftrightarrow>
           rid \<in> fst ` set (fst (classify cu st [] [])) \<or>
           rid \<in> fst ` set (snd (classify cu st [] []))"
proof -
  obtain p0 s0 where cl: "classify cu st [] [] = (p0, s0)"
    by (cases "classify cu st [] []")
  from ok cu cl obtain p where p: "sort_by_name p0 = Inr p"
    by (cases "sort_by_name p0") (auto simp: refresh_recipe_list_def)
  from ok cu cl p obtain s where s: "sort_by_name s0 = Inr s"
    by (cases "sort_by_name s0") (auto simp: refresh_recipe_list_def)
  obtain e1 items1 where r1:
    "(if p \<noteq> [] then render_private p [header_private] else (None, [])) = (e1, items1)"
    by (cases "if p \<noteq> [] then render_private p [header_private] else (None, [])")
  from ok cu cl p s r1 have e1: "e1 = None"
    by (cases e1) (auto simp: refresh_recipe_list_def)
  have roles1: "Some rid \<in> role ` set items1 \<longleftrightarrow> rid \<in> fst ` set p"
  proof (cases "p = []")
    case True
    with r1 show ?thesis by auto
  next
    case False
    with r1 e1 have "render_private p [header_private] = (None, items1)" by simp
    from render_private_roles [OF this] show ?thesis
      by (auto simp: header_private_def)
  qed
  define items2 where "items2 = (if p \<noteq> [] \<and> s \<noteq> [] then items1 @ [spacer] else items1)"
  have roles2: "Some rid \<in> role ` set items2 \<longleftrightarrow> rid \<in> fst ` set p"
    using roles1 by (auto simp: items2_def spacer_def)
  have fin: "(if s \<noteq> [] then render_shared cu s (items2 @ [header_shared]) else (None, items2))
               = (None, items)"
    using ok cu cl p s r1 e1
    by (auto simp: refresh_recipe_list_def items2_def Let_def split: if_splits)
  have "Some rid \<in> role ` set items \<longleftrightarrow> rid \<in> fst ` set p \<or> rid \<in> fst ` set s"
  proof (cases "s = []")
    case True
    with fin roles2 show ?thesis by auto
  next
    case False
    with fin have "render_shared cu s (items2 @ [header_shared]) = (None, items)" by simp
    from render_shared_roles [OF this] roles2 show ?thesis
      by (auto simp: header_shared_def)
  qed
  with sort_by_name_set [OF p] sort_by_name_set [OF s] cl show ?thesis by simp
qed


text \<open>
  Claim C1. For a selected user \<open>cu\<close> and a recipe \<open>r\<close> stored under \<open>rid\<close>, when
  \<^verbatim>\<open>refresh_recipe_list\<close> returns without an exception, the list shows an item carrying
  \<open>rid\<close> if and only if \<open>r\<close> is shared or its author is \<open>cu\<close>; a recipe that is not
  shared and has another author is in neither the private nor the shared group. The store
  is a dict (its keys are distinct). The code reads a missing author as \<^verbatim>\<open>'Unknown'\<close>, so
  the record has an author or the user is not called Unknown.
\<close>

theorem refresh_recipe_list_visibility:
  assumes cu: "cu \<noteq> []" and dist: "distinct (map fst st)" and mem: "(rid, r) \<in> set st"
    and ok: "refresh_recipe_list cu st = (None, items)"
    and au: "author r \<noteq> None \<or> cu \<noteq> ''Unknown''"
  shows "((\<exists>it \<in> set items. role it = Some rid) \<longleftrightarrow> (shared r = Some True \<or> author r = Some cu)) \<and>
         (shared r \<noteq> Some True \<and> author r \<noteq> Some cu \<longrightarrow>
            rid \<notin> fst ` set (fst (classify cu st [] [])) \<and>
            rid \<notin> fst ` set (snd (classify cu st [] [])))"
proof -
  have uniq: "r' = r" if "(rid, r') \<in> set st" for r'
    using dist mem that by (meson eq_key_imp_eq_value)
  have sh: "get_shared r \<longleftrightarrow> shared r = Some True"
    by (cases "shared r") (auto simp: get_shared_def)
  have ga: "get_author r = cu \<longleftrightarrow> author r = Some cu"
    using au by (cases "author r") (auto simp: get_author_def)
  have groups: "rid \<in> fst ` set (fst (classify cu st [] [])) \<or>
                rid \<in> fst ` set (snd (classify cu st [] []))
                \<longleftrightarrow> get_shared r \<or> get_author r = cu"
  proof
    assume "rid \<in> fst ` set (fst (classify cu st [] [])) \<or>
            rid \<in> fst ` set (snd (classify cu st [] []))"
    then obtain r' where "(rid, r') \<in> set (fst (classify cu st [] [])) \<or>
                          (rid, r') \<in> set (snd (classify cu st [] []))"
      by fastforce
    then have "(rid, r') \<in> set st" and "get_shared r' \<or> get_author r' = cu"
      by (auto simp: classify_private classify_shared)
    with uniq show "get_shared r \<or> get_author r = cu" by auto
  next
    assume "get_shared r \<or> get_author r = cu"
    with mem have "(rid, r) \<in> set (fst (classify cu st [] [])) \<or>
                   (rid, r) \<in> set (snd (classify cu st [] []))"
      by (auto simp: classify_private classify_shared)
    then show "rid \<in> fst ` set (fst (classify cu st [] [])) \<or>
               rid \<in> fst ` set (snd (classify cu st [] []))"
      by (metis fst_conv image_eqI)
  qed
  have "(\<exists>it \<in> set items. role it = Some rid) \<longleftrightarrow> Some rid \<in> role ` set items"
    by (metis (no_types) image_iff)
  with refresh_roles [OF cu ok, of rid] groups sh ga show ?thesis by blast
qed

lemma demo_refresh:
  "refresh_recipe_list ''ann'' demo_store =
     (None, [header_private, \<lparr>text_of = ''Beta'', role = Some ''id1'', selectable = True\<rparr>,
             spacer, header_shared,
             \<lparr>text_of = ''Gamma (bob)'', role = Some ''id3'', selectable = True\<rparr>])"
  by (simp add: refresh_recipe_list_def demo_store_def get_shared_def get_author_def
      sort_by_name_def name_key_def)


theorem refresh_recipe_list_visibility_witness:
  "''ann'' \<noteq> [] \<and> distinct (map fst demo_store) \<and>
   (''id2'', \<lparr>name = Some ''Alpha'', speed = Some 2000, duration = Some 3,
              acceleration = Some 200, author = Some ''bob'', shared = Some False\<rparr>)
     \<in> set demo_store \<and>
   fst (refresh_recipe_list ''ann'' demo_store) = None \<and>
   \<not> (\<exists>it \<in> set (snd (refresh_recipe_list ''ann'' demo_store)). role it = Some ''id2'') \<and>
   ''id2'' \<notin> fst ` set (fst (classify ''ann'' demo_store [] [])) \<and>
   ''id2'' \<notin> fst ` set (snd (classify ''ann'' demo_store [] []))"
proof -
  have mem: "(''id2'', \<lparr>name = Some ''Alpha'', speed = Some 2000, duration = Some 3,
              acceleration = Some 200, author = Some ''bob'', shared = Some False\<rparr>)
     \<in> set demo_store"
    by (simp add: demo_store_def)
  have dist: "distinct (map fst demo_store)"
    by (simp add: demo_store_def)
  have cu: "''ann'' \<noteq> []" by simp
  from refresh_recipe_list_visibility [OF cu dist mem demo_refresh] mem dist
  show ?thesis by (simp add: demo_refresh)
qed

section \<open>Saving and deleting recipes\<close>

lemma save_recipe_update_store:
  assumes user: "user \<noteq> []" and nm: "name_input g \<noteq> []"
    and item: "current_item = Some it" "\<not> starts_with ''---'' (text_of it)"
              "role it = Some rid" "rid \<noteq> []"
    and ex: "map_of (saved_recipes g) rid = Some r" "author r = Some a"
    and perm: "a = user \<or> shared r = Some True"
    and res: "save_recipe new_uuid user current_item g = (oc, g')"
  shows "(\<forall>w. oc \<noteq> Returned w) \<and>
         saved_recipes g' =
           AList.update rid
             \<lparr>name = Some (name_input g), speed = Some (speed_input g),
              duration = Some (duration_input g), acceleration = Some (accel_input g),
              author = Some a, shared = Some (shared_checkbox g)\<rparr> (saved_recipes g) \<and>
         recipes_json g' = Some (saved_recipes g')"
proof -
  have sel: "selected_recipe_id current_item = Some rid"
    using item by (simp add: selected_recipe_id_def)
  have den: "save_denied user (Some rid) (saved_recipes g) = None"
    using ex perm by (auto simp: save_denied_def get_shared_def)
  define rec where "rec = \<lparr>name = Some (name_input g), speed = Some (speed_input g),
                 duration = Some (duration_input g), acceleration = Some (accel_input g),
                 author = Some a, shared = Some (shared_checkbox g)\<rparr>"
  define g2 where "g2 = log_action user (''Saved: '' @ name_input g)
                     (g\<lparr>saved_recipes := AList.update rid rec (saved_recipes g),
                        recipes_json := Some (AList.update rid rec (saved_recipes g))\<rparr>)"
  obtain e g3 where rf: "do_refresh user g2 = (e, g3)" by (cases "do_refresh user g2")
  have g3: "saved_recipes g3 = AList.update rid rec (saved_recipes g) \<and>
            recipes_json g3 = Some (AList.update rid rec (saved_recipes g))"
    using rf by (auto simp: do_refresh_def g2_def log_action_def Let_def split: prod.splits)
  have "save_recipe new_uuid user current_item g =
          (case e of Some x \<Rightarrow> (Raised x, g3)
                   | None \<Rightarrow> (Completed, g3\<lparr>status_label := ''Saved: '' @ name_input g\<rparr>))"
    using user nm sel den ex rf
    by (simp add: save_recipe_def Let_def rec_def g2_def split: option.splits)
  with res have "(oc = Completed \<or> (\<exists>x. oc = Raised x)) \<and>
                 saved_recipes g' = saved_recipes g3 \<and> recipes_json g' = recipes_json g3"
    by (cases e) auto
  with g3 show ?thesis
    by (auto simp: rec_def)
qed



text \<open>
  Claim C3. When a user is selected, the name is not empty, the current item carries the
  identifier \<open>rid\<close> of a stored recipe with author \<open>a\<close>, and the user is \<open>a\<close> or the recipe
  is shared, then \<^verbatim>\<open>save_recipe\<close> does not return at a guard, and afterwards \<open>rid\<close> holds
  the name, speed, duration, acceleration and sharing flag of the form together with the
  old author \<open>a\<close>; the other recipes are untouched and the file holds the new store.
\<close>

theorem save_recipe_keeps_author:
  assumes user: "user \<noteq> []" and nm: "name_input g \<noteq> []"
    and item: "current_item = Some it" "\<not> starts_with ''---'' (text_of it)"
              "role it = Some rid" "rid \<noteq> []"
    and ex: "map_of (saved_recipes g) rid = Some r" "author r = Some a"
    and perm: "a = user \<or> shared r = Some True"
    and res: "save_recipe new_uuid user current_item g = (oc, g')"
  shows "(\<forall>w. oc \<noteq> Returned w) \<and>
         map_of (saved_recipes g') rid =
           Some \<lparr>name = Some (name_input g), speed = Some (speed_input g),
                 duration = Some (duration_input g), acceleration = Some (accel_input g),
                 author = Some a, shared = Some (shared_checkbox g)\<rparr> \<and>
         (\<forall>rid'. rid' \<noteq> rid \<longrightarrow> map_of (saved_recipes g') rid' = map_of (saved_recipes g) rid') \<and>
         recipes_json g' = Some (saved_recipes g')"
  using save_recipe_update_store [OF assms] by (auto simp: update_conv')

theorem save_recipe_keeps_author_witness:
  "''ann'' \<noteq> [] \<and> name_input demo_gui \<noteq> [] \<and>
   map_of (saved_recipes demo_gui) ''id3'' =
     Some \<lparr>name = Some ''Gamma'', speed = Some 3000, duration = Some 4,
           acceleration = Some 300, author = Some ''bob'', shared = Some True\<rparr> \<and>
   map_of (saved_recipes (snd (save_recipe ''u1'' ''ann''
       (Some \<lparr>text_of = ''Gamma (bob)'', role = Some ''id3'', selectable = True\<rparr>) demo_gui))) ''id3'' =
     Some \<lparr>name = Some ''Delta'', speed = Some 1500, duration = Some 7,
           acceleration = Some 50, author = Some ''bob'', shared = Some False\<rparr>"
proof -
  have ex: "map_of (saved_recipes demo_gui) ''id3'' =
     Some \<lparr>name = Some ''Gamma'', speed = Some 3000, duration = Some 4,
           acceleration = Some 300, author = Some ''bob'', shared = Some True\<rparr>"
    by (simp add: demo_gui_def demo_store_def)
  have nm: "name_input demo_gui \<noteq> []" by (simp add: demo_gui_def)
  have user: "''ann'' \<noteq> []" by simp
  have it: "\<not> starts_with ''---''
               (text_of \<lparr>text_of = ''Gamma (bob)'', role = Some ''id3'', selectable = True\<rparr>)"
            "role \<lparr>text_of = ''Gamma (bob)'', role = Some ''id3'', selectable = True\<rparr> = Some ''id3''"
            "''id3'' \<noteq> []"
    by simp_all
  have au: "author \<lparr>name = Some ''Gamma'', speed = Some 3000, duration = Some 4,
           acceleration = Some 300, author = Some ''bob'', shared = Some True\<rparr> = Some ''bob''"
    and perm: "''bob'' = ''ann'' \<or> shared \<lparr>name = Some ''Gamma'', speed = Some 3000,
           duration = Some 4, acceleration = Some 300, author = Some ''bob'',
           shared = Some True\<rparr> = Some True"
    by simp_all
  from save_recipe_keeps_author [OF user nm refl it ex au perm surjective_pairing]
  have "map_of (saved_recipes (snd (save_recipe ''u1'' ''ann''
       (Some \<lparr>text_of = ''Gamma (bob)'', role = Some ''id3'', selectable = True\<rparr>) demo_gui))) ''id3'' =
     Some \<lparr>name = Some (name_input demo_gui), speed = Some (speed_input demo_gui),
           duration = Some (duration_input demo_gui), acceleration = Some (accel_input demo_gui),
           author = Some ''bob'', shared = Some (shared_checkbox demo_gui)\<rparr>"
    by simp
  with ex nm user show ?thesis by (simp add: demo_gui_def)
qed

text \<open>
  Claim C4. \<^verbatim>\<open>delete_recipe\<close> returns at the guard \<^verbatim>\<open>if not data\<close> (at \<^verbatim>\<open>if not recipe_id\<close>
  for the empty identifier) when the identifier of the current item is not in the store,
  and leaves the whole state as it was; it returns at the permission guard, after the
  warning, when the recipe is neither the user's nor shared, and the recipe stays in the
  store; whenever it returns at a guard the store and the file are unchanged; and the store
  changes only by the removal of a recipe that is the user's or shared.
\<close>

theorem delete_recipe_guards:
  assumes res: "delete_recipe current_user item g = (oc, g')"
  shows "(\<forall>it rid. item = Some it \<and> role it = Some rid \<and> map_of (saved_recipes g) rid = None
            \<longrightarrow> oc = Returned (if rid = [] then NoRecipeId else NoSuchRecipe) \<and> g' = g) \<and>
         (\<forall>it rid d. item = Some it \<and> role it = Some rid \<and> rid \<noteq> [] \<and>
              map_of (saved_recipes g) rid = Some d \<and> \<not> dict_empty d \<and>
              author d \<noteq> Some current_user \<and> shared d \<noteq> Some True
            \<longrightarrow> oc = Returned NotPermitted \<and> saved_recipes g' = saved_recipes g \<and>
                recipes_json g' = recipes_json g \<and> map_of (saved_recipes g') rid = Some d) \<and>
         ((\<exists>w. oc = Returned w) \<longrightarrow>
            saved_recipes g' = saved_recipes g \<and> recipes_json g' = recipes_json g) \<and>
         (saved_recipes g' \<noteq> saved_recipes g \<longrightarrow>
            (\<exists>it rid d. item = Some it \<and> role it = Some rid \<and>
               map_of (saved_recipes g) rid = Some d \<and>
               (author d = Some current_user \<or> shared d = Some True) \<and>
               saved_recipes g' = AList.delete rid (saved_recipes g)))"
proof -
  have rf: "saved_recipes (snd (do_refresh u h)) = saved_recipes h \<and>
            recipes_json (snd (do_refresh u h)) = recipes_json h" for u h
    by (simp add: do_refresh_def split: prod.splits)
  have sh: "get_shared d \<longleftrightarrow> shared d = Some True" for d
    by (cases "shared d") (auto simp: get_shared_def)
  show ?thesis
  proof (cases item)
    case None
    with res show ?thesis by (simp add: delete_recipe_def)
  next
    case (Some it)
    show ?thesis
    proof (cases "role it")
      case None
      with res Some show ?thesis by (simp add: delete_recipe_def)
    next
      case (Some rid)
      note rid = this
      show ?thesis
      proof (cases "rid = []")
        case True
        with res \<open>item = Some it\<close> rid show ?thesis by (simp add: delete_recipe_def)
      next
        case False
        note ne = this
        show ?thesis
        proof (cases "map_of (saved_recipes g) rid")
          case None
          with res \<open>item = Some it\<close> rid ne show ?thesis by (simp add: delete_recipe_def)
        next
          case (Some d)
          note d = this
          show ?thesis
          proof (cases "dict_empty d")
            case True
            with res \<open>item = Some it\<close> rid ne d show ?thesis by (simp add: delete_recipe_def)
          next
            case False
            note nd = this
            show ?thesis
            proof (cases "author d \<noteq> Some current_user \<and> \<not> get_shared d")
              case True
              with res \<open>item = Some it\<close> rid ne d nd have
                "oc = Returned NotPermitted" "saved_recipes g' = saved_recipes g"
                "recipes_json g' = recipes_json g"
                by (auto simp: delete_recipe_def)
              with \<open>item = Some it\<close> rid d show ?thesis by simp
            next
              case False
              note perm = this
              show ?thesis
              proof (cases "name d")
                case None
                with res \<open>item = Some it\<close> rid ne d nd perm have "oc = Raised (KeyError ''name'')" "g' = g"
                  by (auto simp: delete_recipe_def)
                with \<open>item = Some it\<close> rid d perm show ?thesis by (auto simp: sh)
              next
                case (Some nm)
                define g2 where "g2 = log_action current_user (''Deleted: '' @ nm)
                   (g\<lparr>saved_recipes := AList.delete rid (saved_recipes g),
                      recipes_json := Some (AList.delete rid (saved_recipes g))\<rparr>)"
                obtain e g3 where r3: "do_refresh current_user g2 = (e, g3)"
                  by (cases "do_refresh current_user g2")
                from rf [of current_user g2] r3 have g3:
                  "saved_recipes g3 = AList.delete rid (saved_recipes g)"
                  by (simp add: g2_def log_action_def Let_def)
                from res \<open>item = Some it\<close> rid ne d nd perm Some r3 have
                  "(oc, g') = (case e of Some x \<Rightarrow> (Raised x, g3)
                                | None \<Rightarrow> (Completed, g3\<lparr>name_input := []\<rparr>))"
                  by (simp add: delete_recipe_def Let_def g2_def)
                then have "(\<forall>w. oc \<noteq> Returned w) \<and> saved_recipes g' = saved_recipes g3"
                  by (cases e) auto
                with g3 \<open>item = Some it\<close> rid d perm show ?thesis by (auto simp: sh)
              qed
            qed
          qed
        qed
      qed
    qed
  qed
qed

theorem delete_recipe_guards_witness:
  "role \<lparr>text_of = ''Beta'', role = Some ''id1'', selectable = True\<rparr> = Some ''id1'' \<and>
   map_of (saved_recipes demo_gui) ''id1'' =
     Some \<lparr>name = Some ''Beta'', speed = Some 1000, duration = Some 5,
           acceleration = Some 100, author = Some ''ann'', shared = Some False\<rparr> \<and>
   fst (delete_recipe ''bob''
         (Some \<lparr>text_of = ''Beta'', role = Some ''id1'', selectable = True\<rparr>) demo_gui)
     = Returned NotPermitted \<and>
   saved_recipes (snd (delete_recipe ''bob''
         (Some \<lparr>text_of = ''Beta'', role = Some ''id1'', selectable = True\<rparr>) demo_gui))
     = saved_recipes demo_gui"
proof -
  have ex: "map_of (saved_recipes demo_gui) ''id1'' =
     Some \<lparr>name = Some ''Beta'', speed = Some 1000, duration = Some 5,
           acceleration = Some 100, author = Some ''ann'', shared = Some False\<rparr>"
    by (simp add: demo_gui_def demo_store_def)
  from delete_recipe_guards [where current_user = "''bob''" and g = demo_gui
      and item = "Some \<lparr>text_of = ''Beta'', role = Some ''id1'', selectable = True\<rparr>",
      OF surjective_pairing]
  have "\<forall>it rid d. Some \<lparr>text_of = ''Beta'', role = Some ''id1'', selectable = True\<rparr> = Some it \<and>
          role it = Some rid \<and> rid \<noteq> [] \<and>
          map_of (saved_recipes demo_gui) rid = Some d \<and> \<not> dict_empty d \<and>
          author d \<noteq> Some ''bob'' \<and> shared d \<noteq> Some True
        \<longrightarrow> fst (delete_recipe ''bob''
               (Some \<lparr>text_of = ''Beta'', role = Some ''id1'', selectable = True\<rparr>) demo_gui)
              = Returned NotPermitted \<and>
            saved_recipes (snd (delete_recipe ''bob''
               (Some \<lparr>text_of = ''Beta'', role = Some ''id1'', selectable = True\<rparr>) demo_gui))
              = saved_recipes demo_gui"
    by blast
  from this [rule_format, of "\<lparr>text_of = ''Beta'', role = Some ''id1'', selectable = True\<rparr>"
      "''id1''" "\<lparr>name = Some ''Beta'', speed = Some 1000, duration = Some 5,
           acceleration = Some 100, author = Some ''ann'', shared = Some False\<rparr>"] ex
  show ?thesis by (simp add: dict_empty_def)
qed

text \<open>
  Claim C5, as amended. When no user is selected or the name is empty, \<^verbatim>\<open>save_recipe\<close>
  returns at a guard and the store and the file are unchanged. Without a user it shows the
  warning "Please select a User first!"; with a user and an empty name it returns
  without any message and leaves the whole state as it was.
\<close>

theorem save_recipe_validation:
  assumes inv: "user = [] \<or> name_input g = []"
    and res: "save_recipe new_uuid user current_item g = (oc, g')"
  shows "(\<exists>w. oc = Returned w) \<and> saved_recipes g' = saved_recipes g \<and>
         recipes_json g' = recipes_json g \<and>
         (user = [] \<longrightarrow> oc = Returned NoUser \<and>
            warnings g' = warnings g @ [(''Error'', ''Please select a User first!'')]) \<and>
         (user \<noteq> [] \<longrightarrow> oc = Returned NoName \<and> g' = g)"
  using inv res by (auto simp: save_recipe_def Let_def split: if_splits)

theorem save_recipe_validation_witness:
  "fst (save_recipe ''u1'' [] None demo_gui) = Returned NoUser \<and>
   saved_recipes (snd (save_recipe ''u1'' [] None demo_gui)) = saved_recipes demo_gui \<and>
   recipes_json (snd (save_recipe ''u1'' [] None demo_gui)) = recipes_json demo_gui \<and>
   warnings (snd (save_recipe ''u1'' [] None demo_gui)) =
     [(''Error'', ''Please select a User first!'')]"
proof -
  have inv: "([]::string) = [] \<or> name_input demo_gui = []" by simp
  from save_recipe_validation [where new_uuid = "''u1''" and current_item = None,
      OF inv surjective_pairing]
  show ?thesis by (simp add: demo_gui_def)
qed

text \<open>
  Claim C5, as stated, fails for the empty name: with the user ann selected and an empty
  name field the save returns at \<^verbatim>\<open>if not name: return\<close> and no message box is shown.
\<close>

theorem save_recipe_empty_name_silent:
  "fst (save_recipe ''u1'' ''ann'' None (demo_gui\<lparr>name_input := []\<rparr>)) = Returned NoName \<and>
   warnings (snd (save_recipe ''u1'' ''ann'' None (demo_gui\<lparr>name_input := []\<rparr>))) =
     warnings (demo_gui\<lparr>name_input := []\<rparr>)"
  by (simp add: save_recipe_def)


section \<open>Deleting a user\<close>

lemma do_refresh_frame:
  "saved_recipes (snd (do_refresh cu h)) = saved_recipes h \<and>
   recipes_json (snd (do_refresh cu h)) = recipes_json h \<and>
   users (snd (do_refresh cu h)) = users h \<and> users_json (snd (do_refresh cu h)) = users_json h"
  by (simp add: do_refresh_def split: prod.splits)

lemma delete_user_frame:
  assumes "u \<noteq> []" "u \<in> set (users g)"
  shows "saved_recipes (snd (delete_user True next_text u g)) = saved_recipes g \<and>
         recipes_json (snd (delete_user True next_text u g)) = recipes_json g \<and>
         users (snd (delete_user True next_text u g)) = remove1 u (users g) \<and>
         (fst (delete_user True next_text u g) = None \<longrightarrow>
            users_json (snd (delete_user True next_text u g)) = Some (remove1 u (users g)))"
proof -
  define g2 where "g2 = g\<lparr>users := remove1 u (users g),
                          user_combo := remove1 u (user_combo g)\<rparr>"
  obtain e g3 where r: "do_refresh next_text g2 = (e, g3)" by (cases "do_refresh next_text g2")
  from do_refresh_frame [of next_text g2] r
  have g3: "saved_recipes g3 = saved_recipes g" "recipes_json g3 = recipes_json g"
    "users g3 = remove1 u (users g)"
    by (simp_all add: g2_def)
  show ?thesis
  proof (cases "u \<in> set (user_combo g) \<and> next_text \<noteq> u")
    case True
    with assms r g3 show ?thesis
      by (cases e) (simp_all add: delete_user_def Let_def g2_def)
  next
    case False
    with assms show ?thesis
      by (auto simp: delete_user_def Let_def)
  qed
qed

text \<open>
  Claim C10. Deleting a known user \<open>u\<close> (the dialog answered with Yes; user names and
  recipe identifiers without duplicates, as \<^verbatim>\<open>add_new_user\<close> and the dict keep them)
  removes \<open>u\<close> from the user list, and from \<^verbatim>\<open>users.json\<close> unless the refresh of the list
  raises, and leaves the store and \<^verbatim>\<open>recipes.json\<close> as they were, whatever the combo box
  shows next: every recipe of \<open>u\<close> is still stored with its author, and the unshared ones
  are on no remaining user's list.
\<close>

theorem delete_user_keeps_recipes:
  assumes du: "distinct (users g)" and ds: "distinct (map fst (saved_recipes g))"
    and u: "u \<noteq> []" "u \<in> set (users g)"
  shows "users (snd (delete_user True next_text u g)) = remove1 u (users g) \<and>
         set (users (snd (delete_user True next_text u g))) = set (users g) - {u} \<and>
         (fst (delete_user True next_text u g) = None \<longrightarrow>
            users_json (snd (delete_user True next_text u g)) =
              Some (users (snd (delete_user True next_text u g)))) \<and>
         saved_recipes (snd (delete_user True next_text u g)) = saved_recipes g \<and>
         recipes_json (snd (delete_user True next_text u g)) = recipes_json g \<and>
         (\<forall>rid r. (rid, r) \<in> set (saved_recipes g) \<and> author r = Some u \<longrightarrow>
            (rid, r) \<in> set (saved_recipes (snd (delete_user True next_text u g))) \<and>
            (shared r \<noteq> Some True \<longrightarrow>
               (\<forall>u' \<in> set (users (snd (delete_user True next_text u g))).
                  \<forall>items. refresh_recipe_list u' (saved_recipes (snd (delete_user True next_text u g))) = (None, items)
                    \<longrightarrow> \<not> (\<exists>it \<in> set items. role it = Some rid))))"
proof -
  have st: "saved_recipes (snd (delete_user True next_text u g)) = saved_recipes g"
    and fl: "recipes_json (snd (delete_user True next_text u g)) = recipes_json g"
    and us: "users (snd (delete_user True next_text u g)) = remove1 u (users g)"
    and uj: "fst (delete_user True next_text u g) = None \<longrightarrow>
             users_json (snd (delete_user True next_text u g)) =
               Some (users (snd (delete_user True next_text u g)))"
    using delete_user_frame [OF u, of next_text] by simp_all
  have sets: "set (remove1 u (users g)) = set (users g) - {u}"
    using du by simp
  have hid: "\<not> (\<exists>it \<in> set items. role it = Some rid)"
    if mem: "(rid, r) \<in> set (saved_recipes g)" and au: "author r = Some u"
      and ns: "shared r \<noteq> Some True" and u': "u' \<in> set (remove1 u (users g))"
      and rf: "refresh_recipe_list u' (saved_recipes g) = (None, items)"
    for rid r u' items
  proof (cases "u' = []")
    case True
    with rf show ?thesis by (simp add: refresh_recipe_list_def)
  next
    case False
    from u' sets have ne: "u' \<noteq> u" by auto
    have "Some rid \<notin> role ` set items"
    proof
      assume "Some rid \<in> role ` set items"
      with refresh_roles [OF False rf, of rid] obtain r' where
        r': "(rid, r') \<in> set (fst (classify u' (saved_recipes g) [] [])) \<or>
             (rid, r') \<in> set (snd (classify u' (saved_recipes g) [] []))"
        by fastforce
      then have in_st: "(rid, r') \<in> set (saved_recipes g)"
        and vis: "get_shared r' \<or> get_author r' = u'"
        by (auto simp: classify_private classify_shared)
      from ds mem in_st have "r' = r" by (meson eq_key_imp_eq_value)
      with vis au ns ne show False
        by (cases "shared r") (auto simp: get_shared_def get_author_def)
    qed
    then show ?thesis by (metis (no_types) image_iff)
  qed
  show ?thesis
    unfolding st fl us using sets uj us hid by auto
qed


theorem delete_user_keeps_recipes_witness:
  "distinct (users demo_gui) \<and> ''bob'' \<in> set (users demo_gui) \<and>
   users (snd (delete_user True ''ann'' ''bob'' demo_gui)) = [''ann''] \<and>
   saved_recipes (snd (delete_user True ''ann'' ''bob'' demo_gui)) = demo_store \<and>
   (''id2'', \<lparr>name = Some ''Alpha'', speed = Some 2000, duration = Some 3,
              acceleration = Some 200, author = Some ''bob'', shared = Some False\<rparr>)
     \<in> set (saved_recipes (snd (delete_user True ''ann'' ''bob'' demo_gui))) \<and>
   \<not> (\<exists>it \<in> set (snd (refresh_recipe_list ''ann'' demo_store)). role it = Some ''id2'')"
proof -
  define D where "D = snd (delete_user True ''ann'' ''bob'' demo_gui)"
  have du: "distinct (users demo_gui)" and ds: "distinct (map fst (saved_recipes demo_gui))"
    and u: "''bob'' \<noteq> []" "''bob'' \<in> set (users demo_gui)"
    by (simp_all add: demo_gui_def demo_store_def)
  have mem: "(''id2'', \<lparr>name = Some ''Alpha'', speed = Some 2000, duration = Some 3,
              acceleration = Some 200, author = Some ''bob'', shared = Some False\<rparr>)
     \<in> set (saved_recipes demo_gui)"
    by (simp add: demo_gui_def demo_store_def)
  note main = delete_user_keeps_recipes [OF du ds u, of "''ann''", folded D_def]
  from main have us0: "users D = remove1 ''bob'' (users demo_gui)"
    and st0: "saved_recipes D = saved_recipes demo_gui"
    by blast+
  have us: "users D = [''ann'']" unfolding us0 by (simp add: demo_gui_def)
  have st: "saved_recipes D = demo_store" unfolding st0 by (simp add: demo_gui_def)
  have au: "author \<lparr>name = Some ''Alpha'', speed = Some 2000, duration = Some 3,
              acceleration = Some 200, author = Some ''bob'', shared = Some False\<rparr> = Some ''bob''"
    and ns: "shared \<lparr>name = Some ''Alpha'', speed = Some 2000, duration = Some 3,
              acceleration = Some 200, author = Some ''bob'', shared = Some False\<rparr> \<noteq> Some True"
    by simp_all
  from main mem au ns have "\<forall>u' \<in> set (users D).
      \<forall>items. refresh_recipe_list u' (saved_recipes D) = (None, items)
        \<longrightarrow> \<not> (\<exists>it \<in> set items. role it = Some ''id2'')"
    by blast
  then have "\<forall>items. refresh_recipe_list ''ann'' demo_store = (None, items)
        \<longrightarrow> \<not> (\<exists>it \<in> set items. role it = Some ''id2'')"
    unfolding us st by simp
  with demo_refresh
  have hid: "\<not> (\<exists>it \<in> set (snd (refresh_recipe_list ''ann'' demo_store)). role it = Some ''id2'')"
    by (metis snd_conv)
  from mem st have mem': "(''id2'', \<lparr>name = Some ''Alpha'', speed = Some 2000, duration = Some 3,
              acceleration = Some 200, author = Some ''bob'', shared = Some False\<rparr>)
     \<in> set (saved_recipes D)"
    by (simp add: demo_gui_def)
  from du u us st mem' hid show ?thesis unfolding D_def by blast
qed

section \<open>Migration of legacy records\<close>

lemma update_fresh: "k \<notin> fst ` set al \<Longrightarrow> AList.update k v al = al @ [(k, v)]"
  by (induction al) auto

lemma migration_spec_keys:
  "x \<in> fst ` set (migration_spec uuid4 k raw) \<Longrightarrow>
     x \<in> fst ` set raw \<or> (\<exists>i\<ge>k. x = uuid4 i)"
proof (induction raw arbitrary: k)
  case Nil
  then show ?case by simp
next
  case (Cons p raw)
  obtain key val where p: "p = (key, val)" by (cases p)
  show ?case
  proof (cases "name val = None")
    case True
    with Cons.prems p have "x = uuid4 k \<or> x \<in> fst ` set (migration_spec uuid4 (Suc k) raw)"
      by auto
    then show ?thesis
    proof
      assume "x = uuid4 k"
      then show ?thesis by auto
    next
      assume "x \<in> fst ` set (migration_spec uuid4 (Suc k) raw)"
      from Cons.IH [OF this] show ?thesis
        by (metis Suc_leD image_eqI insert_iff list.simps(15) image_insert)
    qed
  next
    case False
    with Cons.prems p have "x = key \<or> x \<in> fst ` set (migration_spec uuid4 k raw)"
      by auto
    then show ?thesis
    proof
      assume "x = key"
      with p show ?thesis by simp
    next
      assume "x \<in> fst ` set (migration_spec uuid4 k raw)"
      from Cons.IH [OF this] show ?thesis by auto
    qed
  qed
qed

lemma migration_spec_distinct:
  assumes "distinct (map fst raw)" and inj: "inj uuid4"
    and fresh: "\<forall>i. uuid4 i \<notin> fst ` set raw"
  shows "distinct (map fst (migration_spec uuid4 k raw))"
  using assms(1) fresh
proof (induction raw arbitrary: k)
  case Nil
  then show ?case by simp
next
  case (Cons p raw)
  obtain key val where p: "p = (key, val)" by (cases p)
  from Cons.prems p have d: "distinct (map fst raw)" and kn: "key \<notin> fst ` set raw"
    and fr: "\<forall>i. uuid4 i \<notin> fst ` set raw" and fk: "\<forall>i. uuid4 i \<noteq> key"
    by auto
  show ?case
  proof (cases "name val = None")
    case True
    have "uuid4 k \<notin> fst ` set (migration_spec uuid4 (Suc k) raw)"
    proof
      assume "uuid4 k \<in> fst ` set (migration_spec uuid4 (Suc k) raw)"
      from migration_spec_keys [OF this] fr obtain i where "i \<ge> Suc k" "uuid4 k = uuid4 i"
        by auto
      with inj show False by (auto dest: injD)
    qed
    with True p Cons.IH [OF d fr, of "Suc k"] show ?thesis by simp
  next
    case False
    have "key \<notin> fst ` set (migration_spec uuid4 k raw)"
    proof
      assume "key \<in> fst ` set (migration_spec uuid4 k raw)"
      from migration_spec_keys [OF this] kn fk show False by auto
    qed
    moreover from False obtain n where "name val = Some n" by auto
    ultimately show ?thesis using p Cons.IH [OF d fr, of k] by simp
  qed
qed

lemma migrate_refines:
  "distinct (map fst (migration_spec uuid4 k raw)) \<Longrightarrow>
   fst ` set (migration_spec uuid4 k raw) \<inter> fst ` set saved = {} \<Longrightarrow>
   migrate uuid4 k raw saved = saved @ migration_spec uuid4 k raw"
proof (induction raw arbitrary: k saved)
  case Nil
  then show ?case by simp
next
  case (Cons p raw)
  obtain key val where p: "p = (key, val)" by (cases p)
  show ?case
  proof (cases "name val = None")
    case True
    from Cons.prems p True have nk: "uuid4 k \<notin> fst ` set saved"
      and d: "distinct (map fst (migration_spec uuid4 (Suc k) raw))"
      and nin: "uuid4 k \<notin> fst ` set (migration_spec uuid4 (Suc k) raw)"
      and dj: "fst ` set (migration_spec uuid4 (Suc k) raw) \<inter> fst ` set saved = {}"
      by auto
    from dj nin have dj': "fst ` set (migration_spec uuid4 (Suc k) raw) \<inter>
        fst ` set (saved @ [(uuid4 k, val\<lparr>name := Some key\<rparr>)]) = {}"
      by auto
    from Cons.IH [OF d dj'] True p show ?thesis
      by (simp add: update_fresh [OF nk])
  next
    case False
    from False obtain n0 where n0: "name val = Some n0" by auto
    from Cons.prems p n0 have nk: "key \<notin> fst ` set saved"
      and d: "distinct (map fst (migration_spec uuid4 k raw))"
      and nin: "key \<notin> fst ` set (migration_spec uuid4 k raw)"
      and dj: "fst ` set (migration_spec uuid4 k raw) \<inter> fst ` set saved = {}"
      by auto
    from dj nin have dj': "fst ` set (migration_spec uuid4 k raw) \<inter>
        fst ` set (saved @ [(key, val)]) = {}"
      by auto
    from False obtain n where "name val = Some n" by auto
    with Cons.IH [OF d dj'] p show ?thesis
      by (simp add: update_fresh [OF nk])
  qed
qed

lemma migration_spec_length: "length (migration_spec uuid4 k raw) = length raw"
  by (induction uuid4 k raw rule: migration_spec.induct) auto

lemma migration_spec_nth:
  "i < length raw \<Longrightarrow>
     (name (snd (raw ! i)) = None \<longrightarrow>
        (\<exists>j. fst (migration_spec uuid4 k raw ! i) = uuid4 j) \<and>
        snd (migration_spec uuid4 k raw ! i) = (snd (raw ! i))\<lparr>name := Some (fst (raw ! i))\<rparr>) \<and>
     (name (snd (raw ! i)) \<noteq> None \<longrightarrow> migration_spec uuid4 k raw ! i = raw ! i)"
proof (induction raw arbitrary: k i)
  case Nil
  then show ?case by simp
next
  case (Cons p raw)
  obtain key val where p: "p = (key, val)" by (cases p)
  show ?case
  proof (cases i)
    case 0
    with p show ?thesis by auto
  next
    case (Suc n)
    with Cons.prems have "n < length raw" by simp
    from Cons.IH [OF this] Suc p show ?thesis by (cases "name val = None") auto
  qed
qed


lemma load_data_store:
  "recipes_json g = Some raw \<Longrightarrow>
     saved_recipes (snd (load_data uuid4 cu g)) = migrate uuid4 0 raw []"
  by (simp add: load_data_def do_refresh_def Let_def split: option.splits prod.splits)

text \<open>
  Claim C9. Let \<^verbatim>\<open>recipes.json\<close> hold the object \<open>raw\<close> (distinct keys), and let the
  generated UUIDs be pairwise different and different from the keys of the file. After
  \<^verbatim>\<open>load_data\<close> the store has one record per record of the file, in the file's order, under
  pairwise distinct identifiers: a record without name sits under a generated identifier
  that is no key of the file, with its old key as name and its other fields as they were;
  a record with a name sits under its key, unchanged.
\<close>

theorem load_data_migrates:
  assumes fl: "recipes_json g = Some raw" and dist: "distinct (map fst raw)"
    and inj: "inj uuid4" and fresh: "\<forall>k. uuid4 k \<notin> fst ` set raw"
  shows "distinct (map fst (saved_recipes (snd (load_data uuid4 cu g)))) \<and>
         length (saved_recipes (snd (load_data uuid4 cu g))) = length raw \<and>
         (\<forall>i < length raw.
            (name (snd (raw ! i)) = None \<longrightarrow>
               fst (saved_recipes (snd (load_data uuid4 cu g)) ! i) \<notin> fst ` set raw \<and>
               snd (saved_recipes (snd (load_data uuid4 cu g)) ! i) =
                 (snd (raw ! i))\<lparr>name := Some (fst (raw ! i))\<rparr>) \<and>
            (name (snd (raw ! i)) \<noteq> None \<longrightarrow>
               saved_recipes (snd (load_data uuid4 cu g)) ! i = raw ! i))"
proof -
  have ld: "saved_recipes (snd (load_data uuid4 cu g)) = migrate uuid4 0 raw []"
    by (rule load_data_store [OF fl])
  have d: "distinct (map fst (migration_spec uuid4 0 raw))"
    by (rule migration_spec_distinct [OF dist inj fresh])
  have eq: "migrate uuid4 0 raw [] = migration_spec uuid4 0 raw"
    using migrate_refines [OF d, of "[]"] by simp
  have nth: "(name (snd (raw ! i)) = None \<longrightarrow>
               fst (migration_spec uuid4 0 raw ! i) \<notin> fst ` set raw \<and>
               snd (migration_spec uuid4 0 raw ! i) =
                 (snd (raw ! i))\<lparr>name := Some (fst (raw ! i))\<rparr>) \<and>
            (name (snd (raw ! i)) \<noteq> None \<longrightarrow> migration_spec uuid4 0 raw ! i = raw ! i)"
    if "i < length raw" for i
    using migration_spec_nth [OF that, of uuid4 0] fresh by metis
  show ?thesis
    unfolding ld eq using d nth by (simp add: migration_spec_length)
qed

theorem load_data_migrates_witness:
  "recipes_json (demo_gui\<lparr>recipes_json := Some demo_raw\<rparr>) = Some demo_raw \<and>
   distinct (map fst demo_raw) \<and> inj demo_uuid4 \<and> (\<forall>k. demo_uuid4 k \<notin> fst ` set demo_raw) \<and>
   saved_recipes (snd (load_data demo_uuid4 ''ann'' (demo_gui\<lparr>recipes_json := Some demo_raw\<rparr>))) =
     [(''uuid-'', \<lparr>name = Some ''MyRecipe'', speed = Some 1200, duration = Some 30,
                   acceleration = Some 10, author = Some ''ann'', shared = Some False\<rparr>),
      (''id7'', \<lparr>name = Some ''Kept'', speed = Some 800, duration = Some 9,
                acceleration = Some 20, author = Some ''bob'', shared = Some True\<rparr>)]"
proof -
  have fl: "recipes_json (demo_gui\<lparr>recipes_json := Some demo_raw\<rparr>) = Some demo_raw" by simp
  have dist: "distinct (map fst demo_raw)" by (simp add: demo_raw_def)
  have inj: "inj demo_uuid4"
  proof (rule injI)
    fix x y assume "demo_uuid4 x = demo_uuid4 y"
    then have "length (demo_uuid4 x) = length (demo_uuid4 y)" by simp
    then show "x = y" by (simp add: demo_uuid4_def)
  qed
  have fresh: "\<forall>k. demo_uuid4 k \<notin> fst ` set demo_raw"
    by (simp add: demo_uuid4_def demo_raw_def)
  define st where "st = saved_recipes (snd (load_data demo_uuid4 ''ann''
                      (demo_gui\<lparr>recipes_json := Some demo_raw\<rparr>)))"
  from load_data_migrates [OF fl dist inj fresh, of "''ann''"]
  have len: "length st = length demo_raw"
    and nth: "\<forall>i < length demo_raw.
            (name (snd (demo_raw ! i)) = None \<longrightarrow>
               fst (st ! i) \<notin> fst ` set demo_raw \<and>
               snd (st ! i) = (snd (demo_raw ! i))\<lparr>name := Some (fst (demo_raw ! i))\<rparr>) \<and>
            (name (snd (demo_raw ! i)) \<noteq> None \<longrightarrow> st ! i = demo_raw ! i)"
    unfolding st_def by blast+
  from nth [rule_format, of 0] nth [rule_format, of 1]
  have "snd (st ! 0) = \<lparr>name = Some ''MyRecipe'', speed = Some 1200, duration = Some 30,
                   acceleration = Some 10, author = Some ''ann'', shared = Some False\<rparr>"
    and "st ! 1 = (''id7'', \<lparr>name = Some ''Kept'', speed = Some 800, duration = Some 9,
                acceleration = Some 20, author = Some ''bob'', shared = Some True\<rparr>)"
    by (simp_all add: demo_raw_def)
  moreover have "fst (st ! 0) = ''uuid-''"
    unfolding st_def load_data_store [OF fl]
    by (simp add: demo_raw_def demo_uuid4_def)
  moreover from len have "length st = 2" by (simp add: demo_raw_def)
  ultimately have "st = [(''uuid-'', \<lparr>name = Some ''MyRecipe'', speed = Some 1200, duration = Some 30,
                   acceleration = Some 10, author = Some ''ann'', shared = Some False\<rparr>),
      (''id7'', \<lparr>name = Some ''Kept'', speed = Some 800, duration = Some 9,
                acceleration = Some 20, author = Some ''bob'', shared = Some True\<rparr>)]"
    by (intro nth_equalityI) (auto simp: less_Suc_eq numeral_2_eq_2 prod_eq_iff)
  with fl dist inj fresh show ?thesis unfolding st_def by simp
qed


section \<open>The worker\<close>

lemma render_examples:
  "render (Ramping 1 2 ''Coat'' 2000) = ''Loop 1/2 | Coat: Ramping to 2000 RPM...''"
  "render (Spinning 1 2 ''Coat'' 2000 3) = ''Loop 1/2 | Coat: Spinning 2000 RPM (3s left)''"
  "render (Waiting 2 2 ''Wait'' 1) = ''Loop 2/2 | Wait: WAITING 1s...''"
  by (simp_all add: prefix_text_def str_int_def digits.simps)

lemma flag_never: "stop_after e = None \<Longrightarrow> flag_at e k = True"
  by (simp add: flag_at_def)

lemma run_simulated_trace:
  assumes "stop_after e = None"
  shows "run e (demo_steps nm) 2 True =
           Inr \<lparr>trace = [Emit Initializing, ReadFlag True, ReadFlag True,
            Emit (Ramping 1 2 nm 2000), Sleep 1, ReadFlag True,
            Emit (Spinning 1 2 nm 2000 3), Sleep 1, ReadFlag True,
            Emit (Spinning 1 2 nm 2000 2), Sleep 1, ReadFlag True,
            Emit (Spinning 1 2 nm 2000 1), Sleep 1, ReadFlag True,
            ReadFlag True, Emit (Waiting 1 2 ''Wait'' 2), Sleep 1,
            ReadFlag True, Emit (Waiting 1 2 ''Wait'' 1), Sleep 1,
            ReadFlag True, ReadFlag True, Emit (Ramping 2 2 nm 2000),
            Sleep 1, ReadFlag True, Emit (Spinning 2 2 nm 2000 3),
            Sleep 1, ReadFlag True, Emit (Spinning 2 2 nm 2000 2),
            Sleep 1, ReadFlag True, Emit (Spinning 2 2 nm 2000 1),
            Sleep 1, ReadFlag True, ReadFlag True,
            Emit (Waiting 2 2 ''Wait'' 2), Sleep 1, ReadFlag True,
            Emit (Waiting 2 2 ''Wait'' 1), Sleep 1, Emit ProcessComplete,
            Finished], reads = 16, ser = False\<rparr>"
  using assms
  by (simp add: run_def demo_steps_def wait_step_def spin_step_def run_step_def
      read_running_def flag_never log_events_def shutdown_def eval_nat_numeral Let_def)

text \<open>
  Claim C6, as amended. The worker run in simulation mode, never stopped, on a spin step of
  2000 RPM and 3 seconds followed by a wait step of 2 seconds, with loop count 2, ends
  normally and emits exactly, in order: the notification "Initializing...", then for
  loop 1 the ramp notification, the spin ticks with 3, 2, 1 seconds left and the wait ticks
  with 2, 1 seconds left, then the same six notifications with loop index 2, then
  "Process Complete."; it writes nothing to the device and closes no port.
\<close>

theorem run_simulated_example:
  assumes "stop_after e = None"
  shows "(\<exists>s. run e (demo_steps nm) 2 True = Inr s) \<and>
         emitted (final_trace (run e (demo_steps nm) 2 True)) =
           [Initializing,
      Ramping 1 2 nm 2000, Spinning 1 2 nm 2000 3, Spinning 1 2 nm 2000 2,
      Spinning 1 2 nm 2000 1, Waiting 1 2 ''Wait'' 2, Waiting 1 2 ''Wait'' 1,
      Ramping 2 2 nm 2000, Spinning 2 2 nm 2000 3, Spinning 2 2 nm 2000 2,
      Spinning 2 2 nm 2000 1, Waiting 2 2 ''Wait'' 2, Waiting 2 2 ''Wait'' 1,
      ProcessComplete] \<and>
         written (final_trace (run e (demo_steps nm) 2 True)) = [] \<and>
         Close \<notin> set (final_trace (run e (demo_steps nm) 2 True))"
  by (simp add: run_simulated_trace [OF assms] final_trace_def)

theorem run_simulated_example_witness:
  "stop_after demo_env = None \<and>
   emitted (final_trace (run demo_env (demo_steps ''Coat'') 2 True)) =
     [Initializing,
      Ramping 1 2 ''Coat'' 2000, Spinning 1 2 ''Coat'' 2000 3, Spinning 1 2 ''Coat'' 2000 2,
      Spinning 1 2 ''Coat'' 2000 1, Waiting 1 2 ''Wait'' 2, Waiting 1 2 ''Wait'' 1,
      Ramping 2 2 ''Coat'' 2000, Spinning 2 2 ''Coat'' 2000 3, Spinning 2 2 ''Coat'' 2000 2,
      Spinning 2 2 ''Coat'' 2000 1, Waiting 2 2 ''Wait'' 2, Waiting 2 2 ''Wait'' 1,
      ProcessComplete] \<and>
   written (final_trace (run demo_env (demo_steps ''Coat'') 2 True)) = []"
proof -
  have h: "stop_after demo_env = None" by (simp add: demo_env_def)
  from run_simulated_example [OF h, of "''Coat''"] h show ?thesis by simp
qed

text \<open>
  Claim C6, as stated, fails: the first notification of the run is "Initializing...",
  not the ramp notification, so the run does not emit exactly the listed sequence; and a
  loop emits six step notifications, not seven, fourteen notifications in all.
\<close>

theorem run_simulated_starts_with_initializing:
  "emitted (final_trace (run demo_env (demo_steps ''Coat'') 2 True)) \<noteq>
     [Ramping 1 2 ''Coat'' 2000, Spinning 1 2 ''Coat'' 2000 3, Spinning 1 2 ''Coat'' 2000 2,
      Spinning 1 2 ''Coat'' 2000 1, Waiting 1 2 ''Wait'' 2, Waiting 1 2 ''Wait'' 1,
      Ramping 2 2 ''Coat'' 2000, Spinning 2 2 ''Coat'' 2000 3, Spinning 2 2 ''Coat'' 2000 2,
      Spinning 2 2 ''Coat'' 2000 1, Waiting 2 2 ''Wait'' 2, Waiting 2 2 ''Wait'' 1,
      ProcessComplete] \<and>
   hd (emitted (final_trace (run demo_env (demo_steps ''Coat'') 2 True))) = Initializing \<and>
   length (emitted (final_trace (run demo_env (demo_steps ''Coat'') 2 True))) = 14"
proof -
  have h: "stop_after demo_env = None" by (simp add: demo_env_def)
  show ?thesis by (simp add: run_simulated_trace [OF h] final_trace_def)
qed

text \<open>
  Claim C8. In live mode, when the serial library is missing or opening the port raises,
  the run emits "Initializing...", then the error notification, then \<^verbatim>\<open>finished\<close>, and
  returns: the flag is never read, no step is run, no step notification is emitted and
  nothing is written to the device.
\<close>

theorem run_live_no_connection:
  assumes "\<not> serial_available e \<or> serial_open e = Some msg"
  shows "run e steps loop_count False =
           Inr \<lparr>trace = [Emit Initializing,
                         Emit (if \<not> serial_available e then NoSerial else ConnectionError msg),
                         Finished],
                reads = 0, ser = False\<rparr> \<and>
         filter is_step_progress (emitted (final_trace (run e steps loop_count False))) = [] \<and>
         written (final_trace (run e steps loop_count False)) = []"
  using assms by (auto simp: run_def log_events_def final_trace_def)

theorem run_live_no_connection_witness:
  "serial_open (demo_env\<lparr>serial_open := Some ''could not open port''\<rparr>)
     = Some ''could not open port'' \<and>
   run (demo_env\<lparr>serial_open := Some ''could not open port''\<rparr>) (demo_steps ''Coat'') 2 False =
     Inr \<lparr>trace = [Emit Initializing, Emit (ConnectionError ''could not open port''), Finished],
          reads = 0, ser = False\<rparr> \<and>
   map render (emitted (final_trace
       (run (demo_env\<lparr>serial_open := Some ''could not open port''\<rparr>) (demo_steps ''Coat'') 2 False)))
     = [''Initializing...'', ''Connection Error: could not open port'']"
proof -
  have h: "\<not> serial_available (demo_env\<lparr>serial_open := Some ''could not open port''\<rparr>) \<or>
           serial_open (demo_env\<lparr>serial_open := Some ''could not open port''\<rparr>)
             = Some ''could not open port''"
    by simp
  from run_live_no_connection [OF h, of "demo_steps ''Coat''" 2]
  show ?thesis by (simp add: demo_env_def final_trace_def)
qed

subsection \<open>Cancellation\<close>

lemma flag_mono: "\<not> flag_at e k \<Longrightarrow> \<not> flag_at e (Suc k)"
  by (auto simp: flag_at_def split: option.splits)

lemma read_running_good:
  assumes "clean s \<or> stopped e s" and "read_running e s = (b, s1)"
  shows "(b \<longrightarrow> clean s1) \<and> (\<not> b \<longrightarrow> stopped e s1) \<and> ser s1 = ser s"
proof (cases "flag_at e (reads s)")
  case True
  with assms have "clean s" by (auto simp: stopped_def)
  with True assms(2) show ?thesis by (auto simp: read_running_def clean_def Let_def)
next
  case False
  from assms(2) False have b: "\<not> b" and tr: "trace s1 = trace s @ [ReadFlag False]"
    and rd: "reads s1 = Suc (reads s)" and sr: "ser s1 = ser s"
    by (auto simp: read_running_def Let_def)
  from assms(1) have "\<exists>pre k. trace s1 = pre @ replicate (Suc k) (ReadFlag False) \<and>
                        ReadFlag False \<notin> set pre"
  proof
    assume "clean s"
    then have "trace s1 = trace s @ replicate (Suc 0) (ReadFlag False) \<and>
               ReadFlag False \<notin> set (trace s)"
      using tr by (simp add: clean_def)
    then show ?thesis by blast
  next
    assume "stopped e s"
    then obtain pre k where "trace s = pre @ replicate (Suc k) (ReadFlag False)"
      and "ReadFlag False \<notin> set pre" by (auto simp: stopped_def)
    then have "trace s1 = pre @ replicate (Suc (Suc k)) (ReadFlag False) \<and>
               ReadFlag False \<notin> set pre"
      using tr by (simp add: replicate_append_same)
    then show ?thesis by blast
  qed
  with b rd sr flag_mono [OF False] show ?thesis by (simp add: stopped_def)
qed

lemma log_events_clean:
  "clean s \<Longrightarrow> ReadFlag False \<notin> set es \<Longrightarrow> clean (log_events es s)"
  by (simp add: clean_def log_events_def)

lemma log_events_ser: "ser (log_events es s) = ser s"
  by (simp add: log_events_def)

lemma tick_loop_good:
  "clean s \<or> stopped e s \<Longrightarrow>
     (clean (tick_loop e msg ts s) \<or> stopped e (tick_loop e msg ts s)) \<and>
     ser (tick_loop e msg ts s) = ser s"
proof (induction ts arbitrary: s)
  case Nil
  then show ?case by simp
next
  case (Cons t ts)
  obtain b s1 where r: "read_running e s = (b, s1)" by (cases "read_running e s")
  note g = read_running_good [OF Cons.prems r]
  show ?case
  proof (cases b)
    case False
    with r g show ?thesis by simp
  next
    case True
    with g have "clean (log_events [Emit (msg t), Sleep 1] s1)"
      by (simp add: log_events_clean)
    from Cons.IH [of "log_events [Emit (msg t), Sleep 1] s1"] this r True g
    show ?thesis by (simp add: log_events_ser)
  qed
qed

lemma run_step_good:
  assumes "clean s"
  shows "case run_step e sim cur tot st s of
           Inl (err, s') \<Rightarrow> s' = s
         | Inr s' \<Rightarrow> (clean s' \<or> stopped e s') \<and> ser s' = ser s"
proof (cases "duration st")
  case None
  then show ?thesis by (simp add: run_step_def)
next
  case (Some dur)
  show ?thesis
  proof (cases "(case stype st of None \<Rightarrow> ''spin'' | Some t \<Rightarrow> t) = ''wait''")
    case True
    define s1 where "s1 = (if \<not> sim \<and> ser s then log_events [Write (speed_cmd 0)] s else s)"
    have "clean s1" "ser s1 = ser s"
      using assms by (simp_all add: s1_def log_events_clean log_events_ser)
    with tick_loop_good [of s1 e] Some True show ?thesis
      by (simp add: run_step_def s1_def [symmetric])
  next
    case False
    show ?thesis
    proof (cases "speed st")
      case None
      with Some False show ?thesis by (simp add: run_step_def)
    next
      case (Some sp)
      define nm where "nm = (case name st of None \<Rightarrow> ''Step'' | Some n \<Rightarrow> n)"
      define s2 where "s2 = log_events [Emit (Ramping cur tot nm sp), Sleep 1]
          (if \<not> sim \<and> ser s then log_events [Write (speed_cmd sp)] s else s)"
      have c2: "clean s2" "ser s2 = ser s"
        using assms by (simp_all add: s2_def log_events_clean log_events_ser)
      have eq: "run_step e sim cur tot st s =
                  Inr (tick_loop e (Spinning cur tot nm sp) (countdown (nat dur)) s2)"
        unfolding s2_def nm_def using Some False \<open>duration st = Some dur\<close>
        by (simp add: run_step_def Let_def)
      show ?thesis
        unfolding eq using tick_loop_good [of s2 e] c2 by simp
    qed
  qed
qed

lemma run_steps_good:
  "clean s \<or> stopped e s \<Longrightarrow>
     (case run_steps e sim cur tot steps s of
        Inl (err, s') \<Rightarrow> clean s'
      | Inr s' \<Rightarrow> (clean s' \<or> stopped e s') \<and> ser s' = ser s)"
proof (induction steps arbitrary: s)
  case Nil
  then show ?case by simp
next
  case (Cons st steps)
  obtain b s1 where r: "read_running e s = (b, s1)" by (cases "read_running e s")
  note g = read_running_good [OF Cons.prems r]
  show ?case
  proof (cases b)
    case False
    with r g show ?thesis by simp
  next
    case True
    with g have c1: "clean s1" and sr: "ser s1 = ser s" by simp_all
    show ?thesis
    proof (cases "run_step e sim cur tot st s1")
      case (Inl x)
      with run_step_good [OF c1, of e sim cur tot st] c1 r True show ?thesis
        by (cases x) simp
    next
      case (Inr s2)
      with run_step_good [OF c1, of e sim cur tot st]
      have g2: "clean s2 \<or> stopped e s2" and sr2: "ser s2 = ser s1" by simp_all
      from Cons.IH [OF g2] r True Inr sr sr2 show ?thesis
        by (auto split: sum.splits)
    qed
  qed
qed

lemma run_loops_good:
  "clean s \<or> stopped e s \<Longrightarrow>
     (case run_loops e sim tot steps loops s of
        Inl (err, s') \<Rightarrow> clean s'
      | Inr s' \<Rightarrow> (clean s' \<or> stopped e s') \<and> ser s' = ser s)"
proof (induction loops arbitrary: s)
  case Nil
  then show ?case by simp
next
  case (Cons cur loops)
  obtain b s1 where r: "read_running e s = (b, s1)" by (cases "read_running e s")
  note g = read_running_good [OF Cons.prems r]
  show ?case
  proof (cases b)
    case False
    with r g show ?thesis by simp
  next
    case True
    with g have c1: "clean s1 \<or> stopped e s1" and sr: "ser s1 = ser s" by simp_all
    show ?thesis
    proof (cases "run_steps e sim cur tot steps s1")
      case (Inl x)
      with run_steps_good [OF c1, of sim cur tot steps] r True show ?thesis
        by (cases x) simp
    next
      case (Inr s2)
      with run_steps_good [OF c1, of sim cur tot steps]
      have g2: "clean s2 \<or> stopped e s2" and sr2: "ser s2 = ser s1" by simp_all
      from Cons.IH [OF g2] r True Inr sr sr2 show ?thesis
        by (auto split: sum.splits)
    qed
  qed
qed

lemma split_block:
  "a \<notin> set p0 \<Longrightarrow> a \<notin> set sh \<Longrightarrow> pre @ a # post = p0 @ replicate n a @ sh \<Longrightarrow>
     \<exists>j. post = replicate j a @ sh"
proof (induction p0 arbitrary: pre)
  case Nil
  then show ?case
  proof (induction n arbitrary: pre)
    case 0
    then have "a \<in> set sh" by (metis append_Nil in_set_conv_decomp replicate_0)
    with 0 show ?case by simp
  next
    case (Suc m)
    show ?case
    proof (cases pre)
      case Nil
      with Suc.prems show ?thesis by auto
    next
      case (Cons x pre')
      with Suc.prems have "pre' @ a # post = [] @ replicate m a @ sh" by simp
      from Suc.IH [OF Suc.prems(1) Suc.prems(2) this] show ?thesis .
    qed
  qed
next
  case (Cons x p0)
  show ?case
  proof (cases pre)
    case Nil
    with Cons.prems show ?thesis by auto
  next
    case (Cons y pre')
    with Cons.prems have "pre' @ a # post = p0 @ replicate n a @ sh" "a \<notin> set p0" by auto
    from Cons.IH [OF this(2) Cons.prems(2) this(1)] show ?thesis .
  qed
qed


lemma check_guard_append:
  "check_guard a (xs @ ys) = (check_guard a xs \<and> check_guard (armed_after a xs) ys)"
  by (induction a xs rule: check_guard.induct) auto

lemma armed_after_append:
  "armed_after a (xs @ ys) = armed_after (armed_after a xs) ys"
  by (induction a xs rule: armed_after.induct) auto

lemma read_running_guarded:
  "guarded s \<Longrightarrow> read_running e s = (b, s1) \<Longrightarrow> guarded s1 \<and> armed s1 = b"
  by (auto simp: read_running_def guarded_def armed_def Let_def check_guard_append
      armed_after_append)

lemma log_events_guarded:
  "guarded s \<Longrightarrow> check_guard (armed s) es \<Longrightarrow> guarded (log_events es s)"
  by (simp add: guarded_def armed_def log_events_def check_guard_append)

lemma log_write_armed: "armed (log_events [Write w] s) = armed s"
  by (simp add: armed_def log_events_def armed_after_append)

lemma tick_loop_guarded: "guarded s \<Longrightarrow> guarded (tick_loop e msg ts s)"
proof (induction ts arbitrary: s)
  case Nil
  then show ?case by simp
next
  case (Cons t ts)
  obtain b s1 where r: "read_running e s = (b, s1)" by (cases "read_running e s")
  note g = read_running_guarded [OF Cons.prems r]
  show ?case
  proof (cases b)
    case False
    with r g show ?thesis by simp
  next
    case True
    with g have "guarded (log_events [Emit (msg t), Sleep 1] s1)"
      by (intro log_events_guarded) simp_all
    from Cons.IH [OF this] r True show ?thesis by simp
  qed
qed

lemma run_step_guarded:
  assumes "guarded s" and "armed s"
  shows "case run_step e sim cur tot st s of
           Inl (err, s') \<Rightarrow> guarded s'
         | Inr s' \<Rightarrow> guarded s'"
proof (cases "duration st")
  case None
  with assms show ?thesis by (simp add: run_step_def)
next
  case (Some dur)
  show ?thesis
  proof (cases "(case stype st of None \<Rightarrow> ''spin'' | Some t \<Rightarrow> t) = ''wait''")
    case True
    define nm where "nm = (case name st of None \<Rightarrow> ''Step'' | Some n \<Rightarrow> n)"
    define s1 where "s1 = (if \<not> sim \<and> ser s then log_events [Write (speed_cmd 0)] s else s)"
    have g1: "guarded s1"
      using assms by (simp add: s1_def log_events_guarded)
    have eq: "run_step e sim cur tot st s =
                Inr (tick_loop e (Waiting cur tot nm) (countdown (nat dur)) s1)"
      unfolding s1_def nm_def using Some True by (simp add: run_step_def Let_def)
    show ?thesis unfolding eq using tick_loop_guarded [OF g1] by simp
  next
    case False
    show ?thesis
    proof (cases "speed st")
      case None
      with Some False assms show ?thesis by (simp add: run_step_def)
    next
      case (Some sp)
      define nm where "nm = (case name st of None \<Rightarrow> ''Step'' | Some n \<Rightarrow> n)"
      define s1 where "s1 = (if \<not> sim \<and> ser s then log_events [Write (speed_cmd sp)] s else s)"
      define s2 where "s2 = log_events [Emit (Ramping cur tot nm sp), Sleep 1] s1"
      have g1: "guarded s1" "armed s1"
        using assms by (simp_all add: s1_def log_events_guarded log_write_armed)
      then have g2: "guarded s2"
        unfolding s2_def by (intro log_events_guarded) simp_all
      have eq: "run_step e sim cur tot st s =
                  Inr (tick_loop e (Spinning cur tot nm sp) (countdown (nat dur)) s2)"
        unfolding s2_def s1_def nm_def using Some False \<open>duration st = Some dur\<close>
        by (simp add: run_step_def Let_def)
      show ?thesis unfolding eq using tick_loop_guarded [OF g2] by simp
    qed
  qed
qed

lemma run_steps_guarded:
  "guarded s \<Longrightarrow>
     (case run_steps e sim cur tot steps s of
        Inl (err, s') \<Rightarrow> guarded s'
      | Inr s' \<Rightarrow> guarded s')"
proof (induction steps arbitrary: s)
  case Nil
  then show ?case by simp
next
  case (Cons st steps)
  obtain b s1 where r: "read_running e s = (b, s1)" by (cases "read_running e s")
  note g = read_running_guarded [OF Cons.prems r]
  show ?case
  proof (cases b)
    case False
    with r g show ?thesis by simp
  next
    case True
    with g have g1: "guarded s1" "armed s1" by simp_all
    show ?thesis
    proof (cases "run_step e sim cur tot st s1")
      case (Inl x)
      with run_step_guarded [OF g1, of e sim cur tot st] r True show ?thesis
        by (cases x) simp
    next
      case (Inr s2)
      with run_step_guarded [OF g1, of e sim cur tot st] have "guarded s2" by simp
      from Cons.IH [OF this] r True Inr show ?thesis by simp
    qed
  qed
qed

lemma run_loops_guarded:
  "guarded s \<Longrightarrow>
     (case run_loops e sim tot steps loops s of
        Inl (err, s') \<Rightarrow> guarded s'
      | Inr s' \<Rightarrow> guarded s')"
proof (induction loops arbitrary: s)
  case Nil
  then show ?case by simp
next
  case (Cons cur loops)
  obtain b s1 where r: "read_running e s = (b, s1)" by (cases "read_running e s")
  note g = read_running_guarded [OF Cons.prems r]
  show ?case
  proof (cases b)
    case False
    with r g show ?thesis by simp
  next
    case True
    with g have g1: "guarded s1" by simp
    show ?thesis
    proof (cases "run_steps e sim cur tot steps s1")
      case (Inl x)
      with run_steps_guarded [OF g1, of e sim cur tot steps] r True show ?thesis
        by (cases x) simp
    next
      case (Inr s2)
      with run_steps_guarded [OF g1, of e sim cur tot steps] have "guarded s2" by simp
      from Cons.IH [OF this] r True Inr show ?thesis by simp
    qed
  qed
qed

lemma speed_cmd_zero: "speed_cmd 0 = ''SPEED:0'' @ [CHR 0x0A]"
  by (simp add: speed_cmd_def str_int_def digits.simps)


lemma run_no_connection:
  assumes "\<not> serial_available e \<or> serial_open e = Some msg"
  shows "run e steps loop_count False =
           Inr \<lparr>trace = [Emit Initializing,
                         Emit (if \<not> serial_available e then NoSerial else ConnectionError msg),
                         Finished],
                reads = 0, ser = False\<rparr>"
  using assms by (auto simp: run_def log_events_def)

text \<open>
  Claim C7. In every run in live mode, whether or not an exception escapes: each step
  notification (ramp, spin tick, wait tick) directly follows a read of the flag that
  returned True, with at most the write of the speed command in between, so the flag is
  read at the top of each loop iteration and of each step and before each tick; and after
  any read of the flag that returned False the trace holds nothing but further reads that
  return False, then the command \<^verbatim>\<open>SPEED:0\<close>, the closing of the port, the notification
  "Process Complete." and \<^verbatim>\<open>finished\<close>.
\<close>

theorem run_live_cancellation:
  "check_guard False (final_trace (run e steps loop_count False)) \<and>
   (\<forall>pre post. final_trace (run e steps loop_count False) = pre @ ReadFlag False # post \<longrightarrow>
      (\<exists>k. post = replicate k (ReadFlag False) @
             [Write (''SPEED:0'' @ [CHR 0x0A]), Close, Emit ProcessComplete, Finished]))"
proof (cases "\<not> serial_available e \<or> serial_open e \<noteq> None")
  case True
  then obtain msg where "\<not> serial_available e \<or> serial_open e = Some msg" by auto
  from run_no_connection [OF this, of steps loop_count]
  have ft: "final_trace (run e steps loop_count False) =
    [Emit Initializing, Emit (if \<not> serial_available e then NoSerial else ConnectionError msg),
     Finished]"
    by (simp add: final_trace_def)
  show ?thesis unfolding ft by (auto simp: Cons_eq_append_conv)
next
  case False
  define s1 where "s1 = log_events [Sleep 2, Emit (Connected ''COM3'')]
                          \<lparr>trace = [Emit Initializing], reads = 0, ser = True\<rparr>"
  define loops where "loops = map int [1..<Suc (nat loop_count)]"
  define sh where "sh = [Write (''SPEED:0'' @ [CHR 0x0A]), Close, Emit ProcessComplete, Finished]"
  have c1: "clean s1" and g1: "guarded s1" and sr1: "ser s1"
    by (simp_all add: s1_def clean_def guarded_def log_events_def)
  have run_eq: "run e steps loop_count False =
      (case run_loops e False loop_count steps loops s1 of
         Inl err \<Rightarrow> Inl err
       | Inr s2 \<Rightarrow> Inr (shutdown False s2))"
    using False by (auto simp: run_def s1_def loops_def Let_def)
  show ?thesis
  proof (cases "run_loops e False loop_count steps loops s1")
    case (Inl x)
    obtain err s' where x: "x = (err, s')" by (cases x)
    from run_loops_good [of s1 e False loop_count steps loops] c1 Inl x
    have "clean s'" by simp
    moreover from run_loops_guarded [OF g1, of e False loop_count steps loops] Inl x
    have "guarded s'" by simp
    moreover have "final_trace (run e steps loop_count False) = trace s'"
      using run_eq Inl x by (simp add: final_trace_def)
    ultimately show ?thesis by (auto simp: clean_def guarded_def)
  next
    case (Inr s2)
    from run_loops_good [of s1 e False loop_count steps loops] c1 Inr sr1
    have good: "clean s2 \<or> stopped e s2" and sr2: "ser s2" by simp_all
    from run_loops_guarded [OF g1, of e False loop_count steps loops] Inr
    have g2: "guarded s2" by simp
    have ft: "final_trace (run e steps loop_count False) = trace s2 @ sh"
      using run_eq Inr sr2
      by (simp add: final_trace_def shutdown_def log_events_def sh_def speed_cmd_zero)
    have "check_guard False (trace s2 @ sh)"
      using g2 by (simp add: guarded_def check_guard_append sh_def)
    moreover have "\<exists>k. post = replicate k (ReadFlag False) @ sh"
      if sp: "trace s2 @ sh = pre @ ReadFlag False # post" for pre post
      using good
    proof
      assume "clean s2"
      then have "ReadFlag False \<notin> set (trace s2 @ sh)" by (simp add: clean_def sh_def)
      with sp show ?thesis by simp
    next
      assume "stopped e s2"
      then obtain p0 k where tr: "trace s2 = p0 @ replicate (Suc k) (ReadFlag False)"
        and p0: "ReadFlag False \<notin> set p0" by (auto simp: stopped_def)
      have nsh: "ReadFlag False \<notin> set sh" by (simp add: sh_def)
      from sp tr have "pre @ ReadFlag False # post = p0 @ replicate (Suc k) (ReadFlag False) @ sh"
        by simp
      from split_block [OF p0 nsh this] show ?thesis .
    qed
    ultimately show ?thesis unfolding ft sh_def by metis
  qed
qed



lemma countdown_numeral: "countdown (numeral k) = numeral k # countdown (pred_numeral k)"
proof -
  have "countdown (numeral k) = countdown (Suc (pred_numeral k))"
    by (simp only: numeral_eq_Suc)
  also have "\<dots> = int (Suc (pred_numeral k)) # countdown (pred_numeral k)"
    by (simp only: countdown.simps)
  also have "int (Suc (pred_numeral k)) = numeral k"
    by (metis numeral_eq_Suc of_nat_numeral)
  finally show ?thesis .
qed


lemma speed_cmd_2000: "speed_cmd 2000 = ''SPEED:2000'' @ [CHR 0x0A]"
  by (simp add: speed_cmd_def str_int_def digits.simps)

theorem run_live_cancellation_witness:
  "final_trace (run demo_stop (demo_steps ''Coat'') 2 False) =
     [Emit Initializing, Sleep 2, Emit (Connected ''COM3''), ReadFlag True, ReadFlag True,
      Write (''SPEED:2000'' @ [CHR 0x0A]), Emit (Ramping 1 2 ''Coat'' 2000), Sleep 1,
      ReadFlag True, Emit (Spinning 1 2 ''Coat'' 2000 3), Sleep 1,
      ReadFlag True, Emit (Spinning 1 2 ''Coat'' 2000 2), Sleep 1,
      ReadFlag True, Emit (Spinning 1 2 ''Coat'' 2000 1), Sleep 1] @
     ReadFlag False #
     [ReadFlag False, Write (''SPEED:0'' @ [CHR 0x0A]), Close, Emit ProcessComplete, Finished] \<and>
   check_guard False (final_trace (run demo_stop (demo_steps ''Coat'') 2 False)) \<and>
   (\<exists>k. [ReadFlag False, Write (''SPEED:0'' @ [CHR 0x0A]), Close, Emit ProcessComplete, Finished] =
        replicate k (ReadFlag False) @
        [Write (''SPEED:0'' @ [CHR 0x0A]), Close, Emit ProcessComplete, Finished])"
proof -
  have tr: "final_trace (run demo_stop (demo_steps ''Coat'') 2 False) =
     [Emit Initializing, Sleep 2, Emit (Connected ''COM3''), ReadFlag True, ReadFlag True,
      Write (''SPEED:2000'' @ [CHR 0x0A]), Emit (Ramping 1 2 ''Coat'' 2000), Sleep 1,
      ReadFlag True, Emit (Spinning 1 2 ''Coat'' 2000 3), Sleep 1,
      ReadFlag True, Emit (Spinning 1 2 ''Coat'' 2000 2), Sleep 1,
      ReadFlag True, Emit (Spinning 1 2 ''Coat'' 2000 1), Sleep 1] @
     ReadFlag False #
     [ReadFlag False, Write (''SPEED:0'' @ [CHR 0x0A]), Close, Emit ProcessComplete, Finished]"
    by (simp add: run_def demo_stop_def demo_steps_def wait_step_def spin_step_def run_step_def
        read_running_def flag_at_def log_events_def shutdown_def final_trace_def
        speed_cmd_2000 speed_cmd_zero countdown_numeral upt_rec Let_def)
  from run_live_cancellation [of demo_stop "demo_steps ''Coat''" 2] tr
  show ?thesis by blast
qed



section \<open>Queued steps\<close>




lemma demo_queue_steps:
  "build_steps demo_store (add_wait_step 2 [alpha_queued]) [] [] =
     Inr ([spin_step \<lparr>name = Some ''Alpha'', speed = Some 2000, duration = Some 3,
                       acceleration = Some 200, author = Some ''bob'', shared = Some False\<rparr>,
           wait_step 2],
          [''Alpha'', ''Wait''])"
  by (simp add: add_wait_step_def alpha_queued_def is_wait_item_def demo_store_def
      wait_step_def)















end
